theory Spec2Isabelle
  imports Main "HOL-Library.Sublist"
begin

section \<open>Strings\<close>

text \<open>
  A JavaScript string is a sequence of code units. The model uses \<open>string\<close> and reads a
  \<open>char\<close> as a code unit below 256, so the white space of \<open>String.prototype.trim\<close> and of
  the regular expression class \<open>\s\<close> is its part below 256: tab, line feed, vertical tab,
  form feed, carriage return, space and the no-break space.
\<close>

definition isSpace :: "char \<Rightarrow> bool" where
  "isSpace c = (of_char c \<in> {9, 10, 11, 12, 13, 32, 160 :: nat})"

definition trim :: "string \<Rightarrow> string" where
  "trim s = rev (dropWhile isSpace (rev (dropWhile isSpace s)))"

text \<open>
  The regular expressions of the source are sequences of literal characters and of
  character classes under \<open>+\<close>, anchored at both ends. \<open>regex_test\<close> is
  \<open>RegExp.prototype.test\<close> for such an expression: it tries the longer repetition first and
  backtracks.
\<close>

datatype ritem = Lit char | Plus "char \<Rightarrow> bool"

fun regex_test :: "ritem list \<Rightarrow> string \<Rightarrow> bool" where
  "regex_test [] s = (s = [])"
| "regex_test (Lit c # r) [] = False"
| "regex_test (Lit c # r) (x # xs) = (x = c \<and> regex_test r xs)"
| "regex_test (Plus p # r) [] = False"
| "regex_test (Plus p # r) (x # xs) =
     (p x \<and> (regex_test (Plus p # r) xs \<or> regex_test r xs))"

definition notSpaceAt :: "char \<Rightarrow> bool" where
  "notSpaceAt c = (\<not> isSpace c \<and> c \<noteq> CHR ''@'')"

text \<open>\<^verbatim>\<open>/^[^\s@]+@[^\s@]+\.[^\s@]+$/\<close>\<close>

definition emailRegex :: "ritem list" where
  "emailRegex = [Plus notSpaceAt, Lit CHR ''@'', Plus notSpaceAt, Lit CHR ''.'', Plus notSpaceAt]"

section \<open>The document\<close>

text \<open>
  The page is a tree of elements. An element has an identity (the object reference of the
  source, here a number), the properties the source reads or writes, and its children in
  document order. The root stands for \<open>document.body\<close>. Its parent, the document element,
  is no node of the tree: the state keeps the one property of it the source can see, its
  class list. Elements outside \<open>body\<close>, those of the head, are not part of the state; the
  source creates none there.
\<close>

record js_file =
  file_type :: string
  file_size :: nat

record element =
  el_tag :: string
  el_class :: "string list"
  el_name :: string
  el_type :: string
  el_value :: string
  el_required :: bool
  el_text :: string
  el_files :: "js_file list"

datatype node = Node (nid: nat) (el: element) (kids: "node list")

fun nodes :: "node \<Rightarrow> node list" where
  "nodes (Node i a ks) = Node i a ks # concat (map nodes ks)"

definition descendants :: "node \<Rightarrow> node list" where
  "descendants n = concat (map nodes (kids n))"

definition ids :: "node \<Rightarrow> nat list" where
  "ids n = map nid (nodes n)"

definition querySelectorAll :: "(element \<Rightarrow> bool) \<Rightarrow> node \<Rightarrow> node list" where
  "querySelectorAll sel n = filter (\<lambda>d. sel (el d)) (descendants n)"

definition querySelector :: "(element \<Rightarrow> bool) \<Rightarrow> node \<Rightarrow> node option" where
  "querySelector sel n = (case querySelectorAll sel n of [] \<Rightarrow> None | d # _ \<Rightarrow> Some d)"

definition getNode :: "nat \<Rightarrow> node \<Rightarrow> node option" where
  "getNode i t = find (\<lambda>n. nid n = i) (nodes t)"

definition parentNode :: "nat \<Rightarrow> node \<Rightarrow> node option" where
  "parentNode i t = find (\<lambda>n. i \<in> set (map nid (kids n))) (nodes t)"

text \<open>\<open>element.remove()\<close>: the element with this identity leaves the tree, with its subtree.\<close>

fun removeNode :: "nat \<Rightarrow> node \<Rightarrow> node" where
  "removeNode e (Node i a ks) = Node i a (map (removeNode e) (filter (\<lambda>k. nid k \<noteq> e) ks))"

text \<open>\<open>parent.appendChild(child)\<close>: the child becomes the last child of the parent.\<close>

fun appendChild :: "nat \<Rightarrow> node \<Rightarrow> node \<Rightarrow> node" where
  "appendChild p c (Node i a ks) =
     (if i = p then Node i a (ks @ [c]) else Node i a (map (appendChild p c) ks))"

text \<open>An assignment to a property of the element with identity \<open>f\<close>.\<close>

fun updateElement :: "nat \<Rightarrow> (element \<Rightarrow> element) \<Rightarrow> node \<Rightarrow> node" where
  "updateElement f h (Node i a ks) =
     Node i (if i = f then h a else a) (map (updateElement f h) ks)"

definition createElement :: "string \<Rightarrow> element" where
  "createElement tg =
     \<lparr>el_tag = tg, el_class = [], el_name = [], el_type = [], el_value = [],
      el_required = False, el_text = [], el_files = []\<rparr>"

definition classList_add :: "string \<Rightarrow> element \<Rightarrow> element" where
  "classList_add c a = (if c \<in> set (el_class a) then a else a\<lparr>el_class := el_class a @ [c]\<rparr>)"

definition classList_remove :: "string \<Rightarrow> element \<Rightarrow> element" where
  "classList_remove c a = a\<lparr>el_class := removeAll c (el_class a)\<rparr>"

definition hasClass :: "string \<Rightarrow> element \<Rightarrow> bool" where
  "hasClass c a = (c \<in> set (el_class a))"

text \<open>
  The selectors of the source. Class names are compared exactly, as in a document that is
  not in quirks mode.
\<close>

definition sel_form :: "element \<Rightarrow> bool" where
  "sel_form a = (el_tag a = ''form'')"

definition sel_csrf_token :: "element \<Rightarrow> bool" where
  "sel_csrf_token a = (el_name a = ''csrf_token'')"

definition sel_input_textarea :: "element \<Rightarrow> bool" where
  "sel_input_textarea a = (el_tag a = ''input'' \<or> el_tag a = ''textarea'')"

definition sel_field_error :: "element \<Rightarrow> bool" where
  "sel_field_error a = hasClass ''field-error'' a"

definition sel_security_message :: "element \<Rightarrow> bool" where
  "sel_security_message a = hasClass ''security-message'' a"

section \<open>The security manager\<close>

text \<open>
  The state the source works on: the document (the tree below \<open>document.body\<close> and the
  class list of \<open>document.documentElement\<close>), the counter that gives a created element its
  identity, \<open>this.csrfToken\<close>, the clock of the event loop in milliseconds and the callbacks
  \<open>setTimeout\<close> has scheduled (the time each is due and the notification it holds).
\<close>

record world =
  root :: node
  html_class :: "string list"
  next_id :: nat
  csrfToken :: string
  clock :: nat
  timers :: "(nat \<times> nat) list"

datatype message_type = Info | Success | Error

fun type_name :: "message_type \<Rightarrow> string" where
  "type_name Info = ''info''"
| "type_name Success = ''success''"
| "type_name Error = ''error''"

subsection \<open>generateCSRFToken\<close>

definition digit36 :: "nat \<Rightarrow> char" where
  "digit36 d = (''0123456789abcdefghijklmnopqrstuvwxyz'') ! d"

function toString36 :: "nat \<Rightarrow> string" where
  "toString36 n = (if n < 36 then [digit36 n] else toString36 (n div 36) @ [digit36 (n mod 36)])"
  by pat_completeness auto
termination
  by (relation "measure id") auto

text \<open>
  \<open>rnd\<close> is \<open>Math.random().toString(36)\<close>, a string that starts with \<open>0.\<close>, and \<open>now\<close> is
  \<open>Date.now()\<close>; \<open>substr(2, 9)\<close> keeps at most nine characters from index 2 on.
\<close>

definition generateCSRFToken :: "string \<Rightarrow> nat \<Rightarrow> string" where
  "generateCSRFToken rnd now = ''csrf_'' @ take 9 (drop 2 rnd) @ ''_'' @ toString36 now"

subsection \<open>clearFieldError, showFieldError\<close>

text \<open>
  A result \<open>None\<close> is a \<open>TypeError\<close>: the source reads a property of \<open>null\<close> (the
  \<open>parentNode\<close> of an element that has no parent, the \<open>files\<close> of an element that is not
  a file input). The state holds the tree of the document only. An element that has left
  the document with a removed subtree is followed no further: an operation on it is \<open>None\<close>
  as well, and the results below are about fields that are in the document.
\<close>

definition clearFieldError :: "world \<Rightarrow> nat \<Rightarrow> world option" where
  "clearFieldError s field =
     (case parentNode field (root s) of
        None \<Rightarrow> None
      | Some parent \<Rightarrow>
          let t1 = (case querySelector sel_field_error parent of
                      None \<Rightarrow> root s
                    | Some existingError \<Rightarrow> removeNode (nid existingError) (root s))
          in Some (s\<lparr>root := updateElement field (classList_remove ''error'') t1\<rparr>))"

definition showFieldError :: "world \<Rightarrow> nat \<Rightarrow> string \<Rightarrow> world option" where
  "showFieldError s field message =
     (case clearFieldError s field of
        None \<Rightarrow> None
      | Some s1 \<Rightarrow>
          let errorDiv = Node (next_id s1)
                ((createElement ''div'')
                   \<lparr>el_class := [''field-error'', ''security-warning''], el_text := message\<rparr>) []
          in (case parentNode field (root s1) of
                None \<Rightarrow> None
              | Some parent \<Rightarrow>
                  Some (s1\<lparr>root := updateElement field (classList_add ''error'')
                                    (appendChild (nid parent) errorDiv (root s1)),
                            next_id := Suc (next_id s1)\<rparr>)))"

subsection \<open>showSecurityMessage\<close>

text \<open>
  \<open>document.querySelectorAll('.security-message')\<close> looks at every element of the document,
  the document element and \<open>body\<close> included. When one of these two is matched it is removed
  with all below it, \<open>document.body\<close> is \<open>null\<close> from then on, and
  \<open>document.body.appendChild\<close> is a \<open>TypeError\<close>: the result is \<open>None\<close>.
\<close>

definition showSecurityMessage :: "world \<Rightarrow> string \<Rightarrow> message_type \<Rightarrow> world option" where
  "showSecurityMessage s message ty =
     (if ''security-message'' \<in> set (html_class s) \<or> sel_security_message (el (root s)) then None
      else
        let existingMessages = querySelectorAll sel_security_message (root s);
            t1 = fold (\<lambda>msg t. removeNode (nid msg) t) existingMessages (root s);
            messageDiv = Node (next_id s)
              ((createElement ''div'')
                 \<lparr>el_class := [''security-message'', ''security-'' @ type_name ty],
                  el_text := message\<rparr>) []
        in Some (s\<lparr>root := appendChild (nid t1) messageDiv t1,
                    next_id := Suc (next_id s),
                    timers := timers s @ [(clock s + 5000, next_id s)]\<rparr>))"

text \<open>
  The callback of \<open>setTimeout\<close>: \<open>if (messageDiv.parentNode) messageDiv.remove()\<close>.
\<close>

definition timerCallback :: "nat \<Rightarrow> node \<Rightarrow> node" where
  "timerCallback messageDiv t =
     (case parentNode messageDiv t of None \<Rightarrow> t | Some _ \<Rightarrow> removeNode messageDiv t)"

text \<open>
  The event loop reaches time \<open>t\<close> with no other event: the callbacks due by then run, the
  earlier first, and leave the list.
\<close>

definition advance :: "world \<Rightarrow> nat \<Rightarrow> world" where
  "advance s t =
     (let due = sort_key fst (filter (\<lambda>d. fst d \<le> t) (timers s))
      in s\<lparr>root := fold (\<lambda>d r. timerCallback (snd d) r) due (root s),
            clock := max (clock s) t,
            timers := filter (\<lambda>d. \<not> fst d \<le> t) (timers s)\<rparr>)"

subsection \<open>validateField, validateForm\<close>

definition validateField :: "world \<Rightarrow> nat \<Rightarrow> (bool \<times> world) option" where
  "validateField s field =
     (case getNode field (root s) of
        None \<Rightarrow> None
      | Some n \<Rightarrow>
          let v = trim (el_value (el n)) in
          if el_type (el n) = ''email'' \<and> v \<noteq> [] \<and> \<not> regex_test emailRegex v then
            map_option (Pair False) (showFieldError s field ''Please enter a valid email address'')
          else if el_required (el n) \<and> v = [] then
            map_option (Pair False) (showFieldError s field ''This field is required'')
          else map_option (Pair True) (clearFieldError s field))"

fun validateInputs :: "nat list \<Rightarrow> bool \<Rightarrow> world \<Rightarrow> (bool \<times> world) option" where
  "validateInputs [] isValid s = Some (isValid, s)"
| "validateInputs (input # inputs) isValid s =
     (case validateField s input of
        None \<Rightarrow> None
      | Some (ok, s1) \<Rightarrow> validateInputs inputs (if \<not> ok then False else isValid) s1)"

definition validateForm :: "world \<Rightarrow> nat \<Rightarrow> (bool \<times> world) option" where
  "validateForm s form =
     (case getNode form (root s) of
        None \<Rightarrow> None
      | Some f \<Rightarrow> validateInputs (map nid (querySelectorAll sel_input_textarea f)) True s)"

subsection \<open>enhanceFormSecurity\<close>

text \<open>
  The body of the loop over the forms, up to the listeners it registers; the listeners
  are \<open>submitListener\<close>, \<open>validateField\<close> (on blur) and \<open>clearFieldError\<close> (on input).
\<close>

definition enhanceForm :: "world \<Rightarrow> nat \<Rightarrow> world option" where
  "enhanceForm s form =
     (case getNode form (root s) of
        None \<Rightarrow> None
      | Some f \<Rightarrow>
          (case querySelector sel_csrf_token f of
             Some _ \<Rightarrow> Some s
           | None \<Rightarrow>
               let csrfInput = Node (next_id s)
                     ((createElement ''input'')
                        \<lparr>el_name := ''csrf_token'', el_type := ''hidden'',
                         el_value := csrfToken s\<rparr>) []
               in Some (s\<lparr>root := appendChild form csrfInput (root s),
                           next_id := Suc (next_id s)\<rparr>)))"

fun enhanceForms :: "nat list \<Rightarrow> world \<Rightarrow> world option" where
  "enhanceForms [] s = Some s"
| "enhanceForms (form # forms) s =
     (case enhanceForm s form of None \<Rightarrow> None | Some s1 \<Rightarrow> enhanceForms forms s1)"

definition enhanceFormSecurity :: "world \<Rightarrow> world option" where
  "enhanceFormSecurity s = enhanceForms (map nid (querySelectorAll sel_form (root s))) s"

text \<open>
  The blur listener of a field, which drops the result of \<open>validateField\<close>.
\<close>

definition blurListener :: "world \<Rightarrow> nat \<Rightarrow> world option" where
  "blurListener s input = map_option snd (validateField s input)"

text \<open>
  The submit listener; the Boolean is \<open>e.defaultPrevented\<close> when it returns. It is \<open>None\<close>
  when the listener ends in a \<open>TypeError\<close>, thrown in \<open>validateForm\<close> or, after
  \<open>e.preventDefault()\<close>, in \<open>showSecurityMessage\<close>.
\<close>

definition submitListener :: "world \<Rightarrow> nat \<Rightarrow> (bool \<times> world) option" where
  "submitListener s form =
     (case validateForm s form of
        None \<Rightarrow> None
      | Some (ok, s1) \<Rightarrow>
          if \<not> ok then
            map_option (Pair True)
              (showSecurityMessage s1 ''Please fix form errors before submitting.'' Error)
          else Some (False, s1))"

subsection \<open>validateFileUpload\<close>

definition allowedTypes :: "string list" where
  "allowedTypes =
     [''image/jpeg'', ''image/png'', ''application/pdf'', ''application/msword'',
      ''application/vnd.openxmlformats-officedocument.wordprocessingml.document'']"

definition maxSize :: nat where
  "maxSize = 5 * 1024 * 1024"

definition maxSizeReadable :: string where
  "maxSizeReadable = ''5MB''"

text \<open>
  \<open>input.value = ''\<close> on a file input: the browser empties the list of selected files.
\<close>

definition resetValue :: "element \<Rightarrow> element" where
  "resetValue a = a\<lparr>el_value := [], el_files := (if el_type a = ''file'' then [] else el_files a)\<rparr>"

definition validateFileUpload :: "world \<Rightarrow> nat \<Rightarrow> (bool \<times> world) option" where
  "validateFileUpload s input =
     (case getNode input (root s) of
        None \<Rightarrow> None
      | Some n \<Rightarrow>
          if \<not> (el_tag (el n) = ''input'' \<and> el_type (el n) = ''file'') then None
          else
            (case el_files (el n) of
               [] \<Rightarrow> Some (True, s)
             | file # _ \<Rightarrow>
                 if file_type file \<notin> set allowedTypes then
                   (case showFieldError s input
                           (''Invalid file type. Allowed: JPG, PNG, PDF, DOC (max ''
                              @ maxSizeReadable @ '')'') of
                      None \<Rightarrow> None
                    | Some s1 \<Rightarrow>
                        Some (False, s1\<lparr>root := updateElement input resetValue (root s1)\<rparr>))
                 else if file_size file > maxSize then
                   (case showFieldError s input
                           (''File too large. Maximum size is '' @ maxSizeReadable) of
                      None \<Rightarrow> None
                    | Some s1 \<Rightarrow>
                        Some (False, s1\<lparr>root := updateElement input resetValue (root s1)\<rparr>))
                 else
                   (case clearFieldError s input of
                      None \<Rightarrow> None
                    | Some s1 \<Rightarrow>
                        map_option (Pair True)
                          (showSecurityMessage s1 ''File looks good!'' Success))))"

section \<open>Views of the state\<close>

subsection \<open>Well-formed documents\<close>

text \<open>
  What a query can see of a node: its identity and its properties.
\<close>

definition label :: "node \<Rightarrow> nat \<times> element" where
  "label n = (nid n, el n)"

text \<open>
  The identities of the nodes of a tree that a selector matches, the root included.
\<close>

definition matching :: "(element \<Rightarrow> bool) \<Rightarrow> node \<Rightarrow> nat set" where
  "matching sel t = fst ` {x \<in> set (map label (nodes t)). sel (snd x)}"

text \<open>
  Identities are unique in the document, and the counter is above all of them, so that a
  created element is new.
\<close>

definition wf_world :: "world \<Rightarrow> bool" where
  "wf_world s = (distinct (ids (root s)) \<and> (\<forall>i \<in> set (ids (root s)). i < next_id s))"

text \<open>
  The file objects of the document: the selected files of all its elements.
\<close>

definition allFiles :: "node \<Rightarrow> js_file list" where
  "allFiles t = concat (map (\<lambda>d. el_files (el d)) (nodes t))"

subsection \<open>Fields and their error state\<close>

text \<open>
  A field the source can annotate: it has a parent in the document, and it is not itself an
  element of class \<open>field-error\<close>, which \<open>clearFieldError\<close> would take out of the document.
\<close>

definition attached :: "world \<Rightarrow> nat \<Rightarrow> bool" where
  "attached s f =
     (parentNode f (root s) \<noteq> None \<and>
      (case getNode f (root s) of None \<Rightarrow> False | Some n \<Rightarrow> \<not> sel_field_error (el n)))"

text \<open>
  The error annotations displayed for a field are the elements of class \<open>field-error\<close>
  below its parent, where the source puts them and looks for them; here their texts, in
  document order.
\<close>

definition annotations :: "world \<Rightarrow> nat \<Rightarrow> string list" where
  "annotations s f =
     (case parentNode f (root s) of
        None \<Rightarrow> []
      | Some p \<Rightarrow> map (\<lambda>d. el_text (el d)) (querySelectorAll sel_field_error p))"

definition anno :: "node \<Rightarrow> nat \<times> string" where
  "anno d = (nid d, el_text (el d))"

text \<open>
  The annotations among the siblings of a field: the children of its parent that are of class
  \<open>field-error\<close>, which is where \<open>showFieldError\<close> appends the annotation of the field.
\<close>

definition ownAnnotations :: "world \<Rightarrow> nat \<Rightarrow> string list" where
  "ownAnnotations s f =
     (case parentNode f (root s) of
        None \<Rightarrow> []
      | Some p \<Rightarrow> map (\<lambda>d. el_text (el d)) (filter (\<lambda>d. sel_field_error (el d)) (kids p)))"

text \<open>
  The user leaves the fields \<open>fs\<close> one after the other, and \<open>showFieldError\<close> is called twice
  in a row on a field.
\<close>

fun blurs :: "nat list \<Rightarrow> world \<Rightarrow> world option" where
  "blurs [] s = Some s"
| "blurs (f # fs) s = (case blurListener s f of None \<Rightarrow> None | Some s1 \<Rightarrow> blurs fs s1)"

definition showTwice :: "world \<Rightarrow> nat \<Rightarrow> string \<Rightarrow> string \<Rightarrow> world option" where
  "showTwice s f m1 m2 =
     (case showFieldError s f m1 of None \<Rightarrow> None | Some s1 \<Rightarrow> showFieldError s1 f m2)"

text \<open>
  The field is marked errored: it carries the class \<open>error\<close>.
\<close>

definition marked :: "world \<Rightarrow> nat \<Rightarrow> bool" where
  "marked s f = (case getNode f (root s) of None \<Rightarrow> False | Some n \<Rightarrow> hasClass ''error'' (el n))"

text \<open>
  The part of the document the annotations of a field are looked up in: the identities of
  the parent of the field and of all below it.
\<close>

definition scope :: "world \<Rightarrow> nat \<Rightarrow> nat list" where
  "scope s f = (case parentNode f (root s) of None \<Rightarrow> [] | Some p \<Rightarrow> ids p)"

text \<open>
  The element \<open>showFieldError\<close> creates, and the one \<open>showSecurityMessage\<close> creates.
\<close>

definition errorElement :: "string \<Rightarrow> element" where
  "errorElement message =
     (createElement ''div'')\<lparr>el_class := [''field-error'', ''security-warning''], el_text := message\<rparr>"

definition messageElement :: "string \<Rightarrow> message_type \<Rightarrow> element" where
  "messageElement message ty =
     (createElement ''div'')
       \<lparr>el_class := [''security-message'', ''security-'' @ type_name ty], el_text := message\<rparr>"

text \<open>
  The hidden input \<open>enhanceForm\<close> creates for a token.
\<close>

definition tokenElement :: "string \<Rightarrow> element" where
  "tokenElement token =
     (createElement ''input'')\<lparr>el_name := ''csrf_token'', el_type := ''hidden'', el_value := token\<rparr>"

subsection \<open>Forms\<close>

text \<open>
  The fields of a form, \<open>form.querySelectorAll('input, textarea')\<close>, and the elements named
  \<open>csrf_token\<close> in it.
\<close>

definition formFields :: "world \<Rightarrow> nat \<Rightarrow> nat list" where
  "formFields s form =
     (case getNode form (root s) of
        None \<Rightarrow> []
      | Some f \<Rightarrow> map nid (querySelectorAll sel_input_textarea f))"

definition tokenFields :: "world \<Rightarrow> nat \<Rightarrow> element list" where
  "tokenFields s form =
     (case getNode form (root s) of
        None \<Rightarrow> []
      | Some f \<Rightarrow> map el (querySelectorAll sel_csrf_token f))"

text \<open>
  The fields \<open>fs\<close> are in the document, each with at most one annotation, and no two of them
  have parents one of which is, or lies below, the other.
\<close>

definition separate_fields :: "world \<Rightarrow> nat list \<Rightarrow> bool" where
  "separate_fields s fs =
     ((\<forall>f \<in> set fs. attached s f \<and> length (annotations s f) \<le> 1) \<and>
      (\<forall>f \<in> set fs. \<forall>g \<in> set fs. f \<noteq> g \<longrightarrow> set (scope s f) \<inter> set (scope s g) = {}))"

text \<open>
  No parent of a field is the body, and no notification element lies inside or around one.
\<close>

definition notifications_apart :: "world \<Rightarrow> nat list \<Rightarrow> bool" where
  "notifications_apart s fs =
     (\<forall>f \<in> set fs. nid (root s) \<notin> set (scope s f) \<and>
        (\<forall>m \<in> set (querySelectorAll sel_security_message (root s)).
           set (ids m) \<inter> set (scope s f) = {}))"

subsection \<open>Notifications\<close>

text \<open>
  The notifications displayed: the texts of the elements of class \<open>security-message\<close> below
  \<open>body\<close>. \<open>plain_root\<close> says that neither \<open>body\<close> nor the document element is of that class,
  and \<open>messageShown\<close> is the state \<open>showSecurityMessage\<close> returns then.
\<close>

definition plain_root :: "world \<Rightarrow> bool" where
  "plain_root s = (''security-message'' \<notin> set (html_class s) \<and> \<not> sel_security_message (el (root s)))"

definition messageShown :: "world \<Rightarrow> string \<Rightarrow> message_type \<Rightarrow> world" where
  "messageShown s message ty =
     (let existingMessages = querySelectorAll sel_security_message (root s);
          t1 = fold (\<lambda>msg t. removeNode (nid msg) t) existingMessages (root s);
          messageDiv = Node (next_id s)
            ((createElement ''div'')
               \<lparr>el_class := [''security-message'', ''security-'' @ type_name ty],
                el_text := message\<rparr>) []
      in s\<lparr>root := appendChild (nid t1) messageDiv t1,
            next_id := Suc (next_id s),
            timers := timers s @ [(clock s + 5000, next_id s)]\<rparr>)"


definition notifications :: "world \<Rightarrow> string list" where
  "notifications s = map (\<lambda>d. el_text (el d)) (querySelectorAll sel_security_message (root s))"

text \<open>
  The two loops of the source that remove elements, as functions of the tree.
\<close>

definition removeAllNodes :: "node list \<Rightarrow> node \<Rightarrow> node" where
  "removeAllNodes ms t = fold (\<lambda>msg t. removeNode (nid msg) t) ms t"

definition runCallbacks :: "(nat \<times> nat) list \<Rightarrow> node \<Rightarrow> node" where
  "runCallbacks due t = fold (\<lambda>d r. timerCallback (snd d) r) due t"

section \<open>The rules in the words of the specification\<close>

text \<open>
  The email pattern: non-white-space characters other than \<open>@\<close>, a literal \<open>@\<close>, such
  characters again, a literal dot, such characters again; each run is non-empty.
\<close>

definition spec_email_pattern :: "string \<Rightarrow> bool" where
  "spec_email_pattern v =
     (\<exists>a b c. v = a @ ''@'' @ b @ ''.'' @ c \<and> a \<noteq> [] \<and> b \<noteq> [] \<and> c \<noteq> [] \<and>
        list_all notSpaceAt a \<and> list_all notSpaceAt b \<and> list_all notSpaceAt c)"

text \<open>
  The rules of the field validator in their precedence: the email rule, the required rule,
  else accept with no message. The result is the verdict and the message.
\<close>

definition FieldValidator_spec :: "element \<Rightarrow> bool \<times> string" where
  "FieldValidator_spec field =
     (let v = trim (el_value field) in
      if el_type field = ''email'' \<and> v \<noteq> [] \<and> \<not> spec_email_pattern v
      then (False, ''Please enter a valid email address'')
      else if el_required field \<and> v = [] then (False, ''This field is required'')
      else (True, []))"

text \<open>
  The verdict of these rules on the field with identity \<open>f\<close>.
\<close>

definition fieldResult :: "world \<Rightarrow> nat \<Rightarrow> bool \<times> string" where
  "fieldResult s f =
     (case getNode f (root s) of None \<Rightarrow> (False, []) | Some n \<Rightarrow> FieldValidator_spec (el n))"

text \<open>
  The allow-list of the file validator.
\<close>

definition spec_allowed_types :: "string set" where
  "spec_allowed_types =
     {''image/jpeg'', ''image/png'', ''application/pdf'', ''application/msword'',
      ''application/vnd.openxmlformats-officedocument.wordprocessingml.document''}"

section \<open>Example pages\<close>

text \<open>
  The pages the results below are evaluated on. \<open>example_page\<close> is the form of the
  specification's end-to-end example: a required text field that is empty and an email field
  holding \<open>bad\<close>, each in an element of its own. \<open>enhanced_example_page\<close> is that page after
  \<open>enhanceFormSecurity\<close>, with the token field appended to the form. \<open>bare_field_page\<close> has
  two required fields that are empty, the first in an element of its own and the second a
  child of the form.
\<close>

definition inputElement :: "string \<Rightarrow> string \<Rightarrow> bool \<Rightarrow> element" where
  "inputElement ty v r = (createElement ''input'')\<lparr>el_type := ty, el_value := v, el_required := r\<rparr>"

definition example_page :: world where
  "example_page =
     \<lparr>root = Node 0 (createElement ''body'')
        [Node 1 (createElement ''form'')
           [Node 2 (createElement ''div'') [Node 3 (inputElement ''text'' [] True) []],
            Node 4 (createElement ''div'') [Node 5 (inputElement ''email'' ''bad'' False) []]]],
      html_class = [], next_id = 6, csrfToken = ''csrf_abc_1'', clock = 0, timers = []\<rparr>"

definition enhanced_example_page :: world where
  "enhanced_example_page =
     \<lparr>root = Node 0 (createElement ''body'')
        [Node 1 (createElement ''form'')
           [Node 2 (createElement ''div'') [Node 3 (inputElement ''text'' [] True) []],
            Node 4 (createElement ''div'') [Node 5 (inputElement ''email'' ''bad'' False) []],
            Node 6 (tokenElement ''csrf_abc_1'') []]],
      html_class = [], next_id = 7, csrfToken = ''csrf_abc_1'', clock = 0, timers = []\<rparr>"

definition bare_field_page :: world where
  "bare_field_page =
     \<lparr>root = Node 0 (createElement ''body'')
        [Node 1 (createElement ''form'')
           [Node 2 (createElement ''div'') [Node 3 (inputElement ''text'' [] True) []],
            Node 4 (inputElement ''text'' [] True) []]],
      html_class = [], next_id = 5, csrfToken = ''csrf_abc_1'', clock = 0, timers = []\<rparr>"

definition required_email_page :: world where
  "required_email_page =
     \<lparr>root = Node 0 (createElement ''body'')
        [Node 1 (createElement ''form'')
           [Node 2 (createElement ''div'') [Node 3 (inputElement ''email'' '' '' True) []]]],
      html_class = [], next_id = 4, csrfToken = ''csrf_abc_1'', clock = 0, timers = []\<rparr>"

definition shared_parent_page :: world where
  "shared_parent_page =
     \<lparr>root = Node 0 (createElement ''body'')
        [Node 1 (createElement ''form'')
           [Node 2 (inputElement ''text'' [] True) [], Node 3 (inputElement ''text'' ''x'' False) []]],
      html_class = [], next_id = 4, csrfToken = ''csrf_abc_1'', clock = 0, timers = []\<rparr>"

definition server_token_page :: world where
  "server_token_page =
     \<lparr>root = Node 0 (createElement ''body'')
        [Node 1 (createElement ''form'')
           [Node 2 (tokenElement ''server-issued'') [],
            Node 3 (createElement ''div'') [Node 4 (inputElement ''text'' ''x'' True) []]]],
      html_class = [], next_id = 5, csrfToken = ''csrf_abc_1'', clock = 0, timers = []\<rparr>"

text \<open>
  A page with a file input that holds the files \<open>fs\<close> and has an annotation from an earlier
  rejection, and three files.
\<close>

definition file_input :: "js_file list \<Rightarrow> element" where
  "file_input fs =
     (createElement ''input'')\<lparr>el_type := ''file'', el_value := ''C:/fakepath/upload'', el_files := fs\<rparr>"

definition file_page :: "js_file list \<Rightarrow> world" where
  "file_page fs =
     \<lparr>root = Node 0 (createElement ''body'')
        [Node 1 (createElement ''form'')
           [Node 2 (createElement ''div'')
              [Node 3 (file_input fs) [],
               Node 4 ((createElement ''div'')\<lparr>el_class := [''field-error'', ''security-warning''],
                         el_text := ''File too large. Maximum size is 5MB''\<rparr>) []]]],
      html_class = [], next_id = 5, csrfToken = ''csrf_abc_1'', clock = 0, timers = []\<rparr>"

definition gif_6MiB :: js_file where
  "gif_6MiB = \<lparr>file_type = ''image/gif'', file_size = 6291456\<rparr>"

definition png_6MiB :: js_file where
  "png_6MiB = \<lparr>file_type = ''image/png'', file_size = 6291456\<rparr>"

definition png_4MiB :: js_file where
  "png_4MiB = \<lparr>file_type = ''image/png'', file_size = 4194304\<rparr>"

section \<open>Lemmas\<close>

lemma showSecurityMessage_conv:
  "showSecurityMessage s message ty = (if plain_root s then Some (messageShown s message ty) else None)"
  by (simp add: showSecurityMessage_def messageShown_def plain_root_def Let_def)

subsection \<open>Trees and identities\<close>

lemma nodes_eq: "nodes n = n # descendants n"
  by (cases n) (simp add: descendants_def)

lemma ids_Node: "ids (Node i a ks) = i # concat (map ids ks)"
  unfolding ids_def by (simp add: map_concat comp_def)

lemma self_in_nodes: "n \<in> set (nodes n)"
  by (simp add: nodes_eq)

lemma nodes_trans: "m \<in> set (nodes n) \<Longrightarrow> k \<in> set (nodes m) \<Longrightarrow> k \<in> set (nodes n)"
proof (induction n arbitrary: m)
  case (Node i a ks)
  then show ?case by (auto simp: self_in_nodes)
qed

lemma kid_in_nodes: "P \<in> set (nodes t) \<Longrightarrow> k \<in> set (kids P) \<Longrightarrow> k \<in> set (nodes t)"
proof -
  assume a: "P \<in> set (nodes t)" and b: "k \<in> set (kids P)"
  have "k \<in> set (nodes P)" using b self_in_nodes[of k] by (cases P) auto
  with a show ?thesis by (rule nodes_trans)
qed

lemma kid_in_descendants:
  "Q \<in> set (nodes k) \<Longrightarrow> q \<in> set (kids Q) \<Longrightarrow> q \<in> set (descendants k)"
proof (induction k arbitrary: Q)
  case (Node i a ks)
  show ?case
  proof (cases "Q = Node i a ks")
    case True
    with Node.prems self_in_nodes[of q] show ?thesis by (auto simp: descendants_def)
  next
    case False
    with Node.prems obtain k' where k': "k' \<in> set ks" "Q \<in> set (nodes k')" by auto
    from Node.IH[OF k'(1) k'(2) Node.prems(2)] have "q \<in> set (descendants k')" .
    then have "q \<in> set (nodes k')" by (simp add: nodes_eq)
    with k'(1) show ?thesis by (auto simp: descendants_def)
  qed
qed

lemma ids_sub: "m \<in> set (nodes n) \<Longrightarrow> set (ids m) \<subseteq> set (ids n)"
  by (auto simp: ids_def dest: nodes_trans)

lemma distinct_sub: "distinct (ids n) \<Longrightarrow> m \<in> set (nodes n) \<Longrightarrow> distinct (ids m)"
proof (induction n arbitrary: m)
  case (Node i a ks)
  show ?case
  proof (cases "m = Node i a ks")
    case True
    with Node.prems show ?thesis by simp
  next
    case False
    with Node.prems obtain k where k: "k \<in> set ks" "m \<in> set (nodes k)" by auto
    from Node.prems(1) k(1) have "distinct (ids k)"
      by (auto simp: ids_Node distinct_concat_iff)
    from Node.IH[OF k(1) this k(2)] show ?thesis .
  qed
qed

lemma node_unique:
  "distinct (ids t) \<Longrightarrow> m \<in> set (nodes t) \<Longrightarrow> n \<in> set (nodes t) \<Longrightarrow> nid m = nid n \<Longrightarrow> m = n"
  by (auto simp: ids_def distinct_map dest: inj_onD)

lemma getNode_iff:
  assumes "distinct (ids t)"
  shows "getNode i t = Some n \<longleftrightarrow> n \<in> set (nodes t) \<and> nid n = i"
proof
  assume "getNode i t = Some n"
  then show "n \<in> set (nodes t) \<and> nid n = i"
    by (auto simp: getNode_def find_Some_iff)
next
  assume a: "n \<in> set (nodes t) \<and> nid n = i"
  then have "find (\<lambda>n. nid n = i) (nodes t) \<noteq> None"
    by (auto simp: find_None_iff)
  then obtain m where m: "getNode i t = Some m" by (auto simp: getNode_def)
  then have "m \<in> set (nodes t) \<and> nid m = i"
    by (auto simp: getNode_def find_Some_iff)
  with a node_unique[OF assms, of m n] m show "getNode i t = Some n" by auto
qed

lemma kids_disjoint:
  assumes "distinct (ids (Node i a ks))" "k1 \<in> set ks" "k2 \<in> set ks" "k1 \<noteq> k2"
  shows "set (ids k1) \<inter> set (ids k2) = {}"
proof -
  from assms(2) obtain xs ys where ks: "ks = xs @ k1 # ys" by (auto dest: split_list)
  with assms(3,4) have "k2 \<in> set xs \<or> k2 \<in> set ys" by auto
  with assms(1) ks show ?thesis by (auto simp: ids_Node)
qed

lemma self_not_below: "distinct (ids n) \<Longrightarrow> nid n \<notin> nid ` set (descendants n)"
  by (cases n) (auto simp: ids_def descendants_def)

lemma parent_unique:
  "distinct (ids t) \<Longrightarrow> P \<in> set (nodes t) \<Longrightarrow> Q \<in> set (nodes t) \<Longrightarrow>
   f \<in> nid ` set (kids P) \<Longrightarrow> f \<in> nid ` set (kids Q) \<Longrightarrow> P = Q"
proof (induction t arbitrary: P Q)
  case (Node i a ks)
  let ?t = "Node i a ks"
  have top: "R = ?t" if R: "R \<in> set (nodes ?t)" "f \<in> nid ` set (kids R)" and f: "f \<in> nid ` set ks" for R
  proof (rule ccontr)
    assume "R \<noteq> ?t"
    with R(1) obtain k where k: "k \<in> set ks" "R \<in> set (nodes k)" by auto
    from R(2) obtain q where q: "q \<in> set (kids R)" "nid q = f" by auto
    from kid_in_descendants[OF k(2) q(1)] have qd: "q \<in> set (descendants k)" .
    from f obtain k1 where k1: "k1 \<in> set ks" "nid k1 = f" by auto
    have dk: "distinct (ids k)" using Node.prems(1) k(1) by (auto simp: ids_Node distinct_concat_iff)
    show False
    proof (cases "k1 = k")
      case True
      with self_not_below[OF dk] qd q(2) k1(2) show False by auto
    next
      case False
      from kids_disjoint[OF Node.prems(1) k1(1) k(1) False]
      have "set (ids k1) \<inter> set (ids k) = {}" .
      moreover have "f \<in> set (ids k1)" using k1(2) by (auto simp: ids_def self_in_nodes)
      moreover have "f \<in> set (ids k)" using qd q(2) by (auto simp: ids_def nodes_eq)
      ultimately show False by auto
    qed
  qed
  show ?case
  proof (cases "P = ?t \<or> Q = ?t")
    case True
    then show ?thesis
    proof
      assume "P = ?t"
      with Node.prems(4) have "f \<in> nid ` set ks" by simp
      from top[OF Node.prems(3) Node.prems(5) this] \<open>P = ?t\<close> show ?thesis by simp
    next
      assume "Q = ?t"
      with Node.prems(5) have "f \<in> nid ` set ks" by simp
      from top[OF Node.prems(2) Node.prems(4) this] \<open>Q = ?t\<close> show ?thesis by simp
    qed
  next
    case False
    with Node.prems obtain k1 k2 where k: "k1 \<in> set ks" "P \<in> set (nodes k1)" "k2 \<in> set ks" "Q \<in> set (nodes k2)"
      by auto
    have d1: "distinct (ids k1)" using Node.prems(1) k(1) by (auto simp: ids_Node distinct_concat_iff)
    show ?thesis
    proof (cases "k1 = k2")
      case True
      with Node.IH[OF k(1) d1 k(2) _ Node.prems(4,5)] k(4) show ?thesis by simp
    next
      case False
      from kids_disjoint[OF Node.prems(1) k(1) k(3) False]
      have dj: "set (ids k1) \<inter> set (ids k2) = {}" .
      from Node.prems(4) obtain p where p: "p \<in> set (kids P)" "nid p = f" by auto
      from Node.prems(5) obtain q where q: "q \<in> set (kids Q)" "nid q = f" by auto
      have "f \<in> set (ids k1)" using kid_in_nodes[OF k(2) p(1)] p(2) by (auto simp: ids_def)
      moreover have "f \<in> set (ids k2)" using kid_in_nodes[OF k(4) q(1)] q(2) by (auto simp: ids_def)
      ultimately show ?thesis using dj by auto
    qed
  qed
qed

lemma parentNode_iff:
  assumes "distinct (ids t)"
  shows "parentNode f t = Some P \<longleftrightarrow> P \<in> set (nodes t) \<and> f \<in> nid ` set (kids P)"
proof
  assume "parentNode f t = Some P"
  then show "P \<in> set (nodes t) \<and> f \<in> nid ` set (kids P)"
    by (auto simp: parentNode_def find_Some_iff)
next
  assume a: "P \<in> set (nodes t) \<and> f \<in> nid ` set (kids P)"
  then have "find (\<lambda>n. f \<in> set (map nid (kids n))) (nodes t) \<noteq> None"
    by (auto simp: find_None_iff)
  then obtain Q where Q: "parentNode f t = Some Q" by (auto simp: parentNode_def)
  then have "Q \<in> set (nodes t) \<and> f \<in> nid ` set (kids Q)"
    by (auto simp: parentNode_def find_Some_iff)
  with a parent_unique[OF assms, of P Q f] Q show "parentNode f t = Some P" by auto
qed

subsection \<open>Removing an element\<close>

lemma nid_removeNode [simp]: "nid (removeNode e n) = nid n"
  by (cases n) simp

lemma el_removeNode [simp]: "el (removeNode e n) = el n"
  by (cases n) simp

lemma kids_removeNode:
  "kids (removeNode e n) = map (removeNode e) (filter (\<lambda>k. nid k \<noteq> e) (kids n))"
  by (cases n) simp

lemma nid_in_ids: "nid n \<in> set (ids n)"
  by (simp add: ids_def self_in_nodes)

lemma removeNode_id: "e \<notin> set (ids n) \<Longrightarrow> removeNode e n = n"
proof (induction n)
  case (Node i a ks)
  have "\<forall>k \<in> set ks. nid k \<noteq> e" using Node.prems nid_in_ids
    by (auto simp: ids_Node)
  then have f: "filter (\<lambda>k. nid k \<noteq> e) ks = ks" by simp
  have "\<forall>k \<in> set ks. removeNode e k = k" using Node by (auto simp: ids_Node)
  then have "map (removeNode e) ks = ks" by (simp add: map_idI)
  with f show ?case by simp
qed

lemma subseq_concat_filter:
  "(\<And>k. k \<in> set ks \<Longrightarrow> subseq (g k) (h k)) \<Longrightarrow>
   subseq (concat (map g (filter Q ks))) (concat (map h ks))"
proof (induction ks)
  case Nil
  then show ?case by simp
next
  case (Cons k ks)
  have r: "subseq (concat (map g (filter Q ks))) (concat (map h ks))"
    using Cons by simp
  show ?case
  proof (cases "Q k")
    case True
    have "subseq (g k) (h k)" using Cons.prems by simp
    with r True show ?thesis by (simp add: list_emb_append_mono)
  next
    case False
    with r show ?thesis by (simp add: list_emb_append2)
  qed
qed

lemma labels_removeNode:
  "subseq (map label (nodes (removeNode e n))) (map label (nodes n))"
proof (induction n)
  case (Node i a ks)
  have "subseq (concat (map (\<lambda>k. map label (nodes (removeNode e k))) (filter (\<lambda>k. nid k \<noteq> e) ks)))
               (concat (map (\<lambda>k. map label (nodes k)) ks))"
    by (rule subseq_concat_filter) (rule Node.IH)
  then show ?case by (simp add: map_concat comp_def label_def[abs_def])
qed

lemma labels_descendants_removeNode:
  "subseq (map label (descendants (removeNode e n))) (map label (descendants n))"
  using labels_removeNode[of e n] by (simp add: nodes_eq label_def)

lemma ids_removeNode: "subseq (ids (removeNode e n)) (ids n)"
proof -
  have "subseq (map fst (map label (nodes (removeNode e n)))) (map fst (map label (nodes n)))"
    by (rule subseq_map) (rule labels_removeNode)
  then show ?thesis by (simp add: ids_def comp_def label_def)
qed

lemma distinct_removeNode: "distinct (ids n) \<Longrightarrow> distinct (ids (removeNode e n))"
  using ids_removeNode[of e n] subseqs_distinctD[of "ids (removeNode e n)" "ids n"] by simp

lemma set_ids_removeNode: "set (ids (removeNode e n)) \<subseteq> set (ids n)"
  using ids_removeNode[of e n] by (auto dest: list_emb_set)

lemma removed_not_below: "e \<notin> nid ` set (descendants (removeNode e n))"
proof (induction n)
  case (Node i a ks)
  have "\<And>k. k \<in> set ks \<Longrightarrow> nid k \<noteq> e \<Longrightarrow> e \<notin> nid ` set (nodes (removeNode e k))"
    using Node.IH by (auto simp: nodes_eq)
  then show ?case by (auto simp: descendants_def)
qed

lemma removeNode_mem:
  "P \<in> set (nodes t) \<Longrightarrow> (\<forall>E \<in> set (nodes t). nid E = e \<longrightarrow> P \<notin> set (nodes E)) \<Longrightarrow>
   removeNode e P \<in> set (nodes (removeNode e t))"
proof (induction t)
  case (Node i a ks)
  show ?case
  proof (cases "P = Node i a ks")
    case True
    then show ?thesis by (simp del: removeNode.simps add: self_in_nodes)
  next
    case False
    with Node.prems(1) obtain k where k: "k \<in> set ks" "P \<in> set (nodes k)" by auto
    have ne: "nid k \<noteq> e"
    proof
      assume "nid k = e"
      moreover have "k \<in> set (nodes (Node i a ks))" using k(1) self_in_nodes[of k] by auto
      ultimately show False using Node.prems(2) k(2) by blast
    qed
    have "\<forall>E \<in> set (nodes k). nid E = e \<longrightarrow> P \<notin> set (nodes E)"
      using Node.prems(2) k(1) by auto
    from Node.IH[OF k(1) k(2) this] have "removeNode e P \<in> set (nodes (removeNode e k))" .
    with k(1) ne show ?thesis by auto
  qed
qed

subsection \<open>Appending an element\<close>

lemma nid_appendChild [simp]: "nid (appendChild p c n) = nid n"
  by (cases n) simp

lemma el_appendChild [simp]: "el (appendChild p c n) = el n"
  by (cases n) simp

lemma appendChild_id: "p \<notin> set (ids n) \<Longrightarrow> appendChild p c n = n"
proof (induction n)
  case (Node i a ks)
  have "\<forall>k \<in> set ks. appendChild p c k = k" using Node by (auto simp: ids_Node)
  then have "map (appendChild p c) ks = ks" by (simp add: map_idI)
  with Node.prems show ?case by (simp add: ids_Node)
qed

lemma appendChild_target: "nid P = p \<Longrightarrow> appendChild p c P = Node p (el P) (kids P @ [c])"
  by (cases P) simp

lemma set_ids_appendChild: "set (ids (appendChild p c n)) \<subseteq> set (ids n) \<union> set (ids c)"
proof (induction n)
  case (Node i a ks)
  show ?case
  proof (cases "i = p")
    case True
    then show ?thesis by (auto simp: ids_Node)
  next
    case False
    have "\<And>k. k \<in> set ks \<Longrightarrow> set (ids (appendChild p c k)) \<subseteq> set (ids k) \<union> set (ids c)"
      by (rule Node.IH)
    with False show ?thesis by (fastforce simp: ids_Node)
  qed
qed

lemma distinct_appendChild:
  "distinct (ids n) \<Longrightarrow> distinct (ids c) \<Longrightarrow> set (ids c) \<inter> set (ids n) = {} \<Longrightarrow>
   distinct (ids (appendChild p c n))"
proof (induction n)
  case (Node i a ks)
  show ?case
  proof (cases "i = p")
    case True
    with Node.prems show ?thesis by (auto simp: ids_Node)
  next
    case False
    show ?thesis
    proof (cases "\<exists>k \<in> set ks. p \<in> set (ids k)")
      case no: False
      then have "\<forall>k \<in> set ks. appendChild p c k = k" by (auto simp: appendChild_id)
      then have "map (appendChild p c) ks = ks" by (simp add: map_idI)
      with False Node.prems(1) show ?thesis by simp
    next
      case True
      then obtain k where k: "k \<in> set ks" "p \<in> set (ids k)" by auto
      then obtain xs ys where ks: "ks = xs @ k # ys" by (auto dest: split_list)
      have dx: "\<forall>x \<in> set xs \<union> set ys. p \<notin> set (ids x)"
        using Node.prems(1) k(2) unfolding ks by (auto simp: ids_Node)
      then have "\<forall>x \<in> set xs \<union> set ys. appendChild p c x = x" by (auto simp: appendChild_id)
      then have m: "map (appendChild p c) xs = xs" "map (appendChild p c) ys = ys"
        by (simp_all add: map_idI)
      have dk: "distinct (ids k)" using Node.prems(1) ks by (auto simp: ids_Node)
      have ck: "set (ids c) \<inter> set (ids k) = {}" using Node.prems(3) ks by (auto simp: ids_Node)
      from Node.IH[OF k(1) dk Node.prems(2) ck] have d': "distinct (ids (appendChild p c k))" .
      have s': "set (ids (appendChild p c k)) \<subseteq> set (ids k) \<union> set (ids c)"
        by (rule set_ids_appendChild)
      have o: "set (ids (appendChild p c k)) \<inter> set (ids x) = {}" if "x \<in> set xs \<union> set ys" for x
      proof -
        have "set (ids k) \<inter> set (ids x) = {}" using Node.prems(1) that unfolding ks
          by (auto simp: ids_Node)
        moreover have "set (ids c) \<inter> set (ids x) = {}" using Node.prems(3) that unfolding ks
          by (auto simp: ids_Node)
        ultimately show ?thesis using s' by blast
      qed
      have i: "i \<notin> set (ids (appendChild p c k))"
        using s' Node.prems(1,3) unfolding ks by (auto simp: ids_Node)
      have "distinct (i # concat (map ids xs) @ ids (appendChild p c k) @ concat (map ids ys))"
        using Node.prems(1) d' o i unfolding ks by (auto simp: ids_Node)
      with False m show ?thesis unfolding ks by (simp add: ids_Node)
    qed
  qed
qed

lemma appendChild_mem:
  "distinct (ids t) \<Longrightarrow> P \<in> set (nodes t) \<Longrightarrow> appendChild p c P \<in> set (nodes (appendChild p c t))"
proof (induction t)
  case (Node i a ks)
  show ?case
  proof (cases "P = Node i a ks")
    case True
    then show ?thesis by (simp del: appendChild.simps add: self_in_nodes)
  next
    case False
    with Node.prems(2) obtain k where k: "k \<in> set ks" "P \<in> set (nodes k)" by auto
    have dk: "distinct (ids k)" using Node.prems(1) k(1) by (auto simp: ids_Node distinct_concat_iff)
    show ?thesis
    proof (cases "i = p")
      case True
      have "p \<notin> set (ids k)" using Node.prems(1) k(1) True by (auto simp: ids_Node)
      with ids_sub[OF k(2)] have "p \<notin> set (ids P)" by auto
      then have "appendChild p c P = P" by (rule appendChild_id)
      with True k show ?thesis by auto
    next
      case False
      from Node.IH[OF k(1) dk k(2)] have "appendChild p c P \<in> set (nodes (appendChild p c k))" .
      with False k(1) show ?thesis by auto
    qed
  qed
qed

subsection \<open>Assigning to a property\<close>

lemma nid_updateElement [simp]: "nid (updateElement f h n) = nid n"
  by (cases n) simp

lemma el_updateElement: "el (updateElement f h n) = (if nid n = f then h (el n) else el n)"
  by (cases n) simp

lemma kids_updateElement: "kids (updateElement f h n) = map (updateElement f h) (kids n)"
  by (cases n) simp

lemma nodes_updateElement: "nodes (updateElement f h n) = map (updateElement f h) (nodes n)"
proof (induction n)
  case (Node i a ks)
  then show ?case by (simp add: map_concat comp_def cong: map_cong)
qed

lemma ids_updateElement [simp]: "ids (updateElement f h n) = ids n"
  by (simp add: ids_def nodes_updateElement comp_def)

lemma descendants_updateElement:
  "descendants (updateElement f h n) = map (updateElement f h) (descendants n)"
  using nodes_updateElement[of f h n] by (simp add: nodes_eq)

lemma updateElement_id: "f \<notin> set (ids n) \<Longrightarrow> updateElement f h n = n"
proof (induction n)
  case (Node i a ks)
  have "\<forall>k \<in> set ks. updateElement f h k = k" using Node by (auto simp: ids_Node)
  then have "map (updateElement f h) ks = ks" by (simp add: map_idI)
  with Node.prems show ?case by (simp add: ids_Node)
qed

lemma querySelectorAll_updateElement:
  "(\<And>a. sel (h a) = sel a) \<Longrightarrow>
   querySelectorAll sel (updateElement f h n) = map (updateElement f h) (querySelectorAll sel n)"
  by (simp add: querySelectorAll_def descendants_updateElement filter_map comp_def el_updateElement)

subsection \<open>What an operation leaves as it is\<close>

lemma descendants_closed: "E \<in> set (descendants P) \<Longrightarrow> set (nodes E) \<subseteq> set (descendants P)"
proof -
  assume "E \<in> set (descendants P)"
  then obtain k where k: "k \<in> set (kids P)" "E \<in> set (nodes k)" by (auto simp: descendants_def)
  have "set (nodes E) \<subseteq> set (nodes k)" using k(2) by (auto dest: nodes_trans)
  with k(1) show ?thesis by (auto simp: descendants_def)
qed

lemma descendants_in_nodes: "P \<in> set (nodes t) \<Longrightarrow> E \<in> set (descendants P) \<Longrightarrow> E \<in> set (nodes t)"
  by (rule nodes_trans[of P t E]) (simp_all add: nodes_eq)

lemma remove_inside:
  assumes d: "distinct (ids t)" and P: "P \<in> set (nodes t)" and E: "E \<in> set (descendants P)"
  shows "removeNode (nid E) P \<in> set (nodes (removeNode (nid E) t))"
proof (rule removeNode_mem[OF P], intro ballI impI)
  fix E' assume E': "E' \<in> set (nodes t)" "nid E' = nid E"
  have "E \<in> set (nodes t)" by (rule descendants_in_nodes[OF P E])
  with node_unique[OF d E'(1) this E'(2)] have "E' = E" by simp
  show "P \<notin> set (nodes E')"
  proof
    assume "P \<in> set (nodes E')"
    with \<open>E' = E\<close> descendants_closed[OF E] have "P \<in> set (descendants P)" by auto
    with self_not_below[OF distinct_sub[OF d P]] show False by auto
  qed
qed

lemma remove_frame:
  assumes d: "distinct (ids t)" and P: "P \<in> set (nodes t)" and e: "e \<in> set (ids P)"
    and Q: "Q \<in> set (nodes t)" and dj: "set (ids Q) \<inter> set (ids P) = {}"
  shows "Q \<in> set (nodes (removeNode e t))"
proof -
  have "removeNode e Q \<in> set (nodes (removeNode e t))"
  proof (rule removeNode_mem[OF Q], intro ballI impI)
    fix E assume E: "E \<in> set (nodes t)" "nid E = e"
    from e obtain E0 where E0: "E0 \<in> set (nodes P)" "nid E0 = e" by (auto simp: ids_def)
    have "E0 \<in> set (nodes t)" using nodes_trans[OF P E0(1)] .
    with node_unique[OF d E(1) this] E(2) E0(2) have "E = E0" by simp
    show "Q \<notin> set (nodes E)"
    proof
      assume "Q \<in> set (nodes E)"
      with \<open>E = E0\<close> E0(1) have "Q \<in> set (nodes P)" by (auto dest: nodes_trans)
      then have "nid Q \<in> set (ids P)" by (auto simp: ids_def)
      with dj nid_in_ids[of Q] show False by auto
    qed
  qed
  moreover have "e \<notin> set (ids Q)" using e dj by auto
  ultimately show ?thesis by (simp add: removeNode_id)
qed

lemma append_frame:
  assumes d: "distinct (ids t)" and Q: "Q \<in> set (nodes t)" and p: "p \<notin> set (ids Q)"
  shows "Q \<in> set (nodes (appendChild p c t))"
  using appendChild_mem[OF d Q, of p c] p by (simp add: appendChild_id)

lemma update_frame:
  assumes Q: "Q \<in> set (nodes t)" and f: "f \<notin> set (ids Q)"
  shows "Q \<in> set (nodes (updateElement f h t))"
proof -
  have "updateElement f h Q \<in> set (nodes (updateElement f h t))"
    using Q by (simp add: nodes_updateElement)
  with f show ?thesis by (simp add: updateElement_id)
qed

lemma kid_id_in_ids: "f \<in> nid ` set (kids P) \<Longrightarrow> f \<in> set (ids P)"
  using kid_in_nodes[OF self_in_nodes[of P]] by (auto simp: ids_def)

lemma subseq_drop_head:
  assumes "subseq xs (y # ys)" "y \<notin> set xs"
  shows "subseq xs ys"
  using assms by (cases xs) (auto elim: list_emb.cases)

lemma sel_classList_remove [simp]: "c \<noteq> ''field-error'' \<Longrightarrow> sel_field_error (classList_remove c a) = sel_field_error a"
  by (auto simp: sel_field_error_def hasClass_def classList_remove_def)

lemma sel_classList_add [simp]: "c \<noteq> ''field-error'' \<Longrightarrow> sel_field_error (classList_add c a) = sel_field_error a"
  by (auto simp: sel_field_error_def hasClass_def classList_add_def)

lemma parentNode_D: "parentNode f t = Some P \<Longrightarrow> P \<in> set (nodes t) \<and> f \<in> nid ` set (kids P)"
  by (auto simp: parentNode_def find_Some_iff)

lemma getNode_D: "getNode f t = Some F \<Longrightarrow> F \<in> set (nodes t) \<and> nid F = f"
  by (auto simp: getNode_def find_Some_iff)

lemma frame_parent:
  "distinct (ids t') \<Longrightarrow> parentNode g t = Some Q \<Longrightarrow> Q \<in> set (nodes t') \<Longrightarrow> parentNode g t' = Some Q"
  using parentNode_D[of g t Q] by (simp add: parentNode_iff)

subsection \<open>clearFieldError and showFieldError\<close>

lemma querySelector_Some:
  "querySelector sel P = Some E \<Longrightarrow>
   E \<in> set (descendants P) \<and> sel (el E) \<and> querySelectorAll sel P = E # tl (querySelectorAll sel P)"
proof -
  assume a: "querySelector sel P = Some E"
  then obtain r where r: "querySelectorAll sel P = E # r"
    by (auto simp: querySelector_def split: list.splits)
  then have "E \<in> set (filter (\<lambda>d. sel (el d)) (descendants P))"
    by (simp add: querySelectorAll_def)
  with r show ?thesis by simp
qed

lemma querySelector_None: "querySelector sel P = None \<Longrightarrow> querySelectorAll sel P = []"
  by (auto simp: querySelector_def split: list.splits)

lemma annos_removeNode:
  "subseq (map anno (querySelectorAll sel (removeNode e P))) (map anno (querySelectorAll sel P))"
proof -
  have "subseq (filter (\<lambda>x. sel (snd x)) (map label (descendants (removeNode e P))))
               (filter (\<lambda>x. sel (snd x)) (map label (descendants P)))"
    using labels_descendants_removeNode by (rule subseq_filter)
  then have "subseq (map label (querySelectorAll sel (removeNode e P))) (map label (querySelectorAll sel P))"
    by (simp add: querySelectorAll_def filter_map comp_def label_def)
  then have "subseq (map (\<lambda>x. (fst x, el_text (snd x))) (map label (querySelectorAll sel (removeNode e P))))
                    (map (\<lambda>x. (fst x, el_text (snd x))) (map label (querySelectorAll sel P)))"
    by (rule subseq_map)
  then show ?thesis by (simp add: comp_def label_def anno_def[abs_def])
qed

lemma annos_updateElement:
  assumes "\<And>a. sel (h a) = sel a" "\<And>a. el_text (h a) = el_text a"
  shows "map anno (querySelectorAll sel (updateElement f h P)) = map anno (querySelectorAll sel P)"
  using assms by (simp add: querySelectorAll_updateElement comp_def anno_def el_updateElement)

lemma clearFieldError_ok:
  assumes wf: "wf_world s" and P: "parentNode f (root s) = Some P"
    and F: "getNode f (root s) = Some F" and nf: "\<not> sel_field_error (el F)"
  obtains s1 P1 F1 where
    "clearFieldError s f = Some s1" "wf_world s1"
    "next_id s1 = next_id s" "csrfToken s1 = csrfToken s" "clock s1 = clock s" "timers s1 = timers s"
    "parentNode f (root s1) = Some P1" "nid P1 = nid P" "set (ids P1) \<subseteq> set (ids P)"
    "getNode f (root s1) = Some F1" "el F1 = classList_remove ''error'' (el F)"
    "subseq (map anno (querySelectorAll sel_field_error P1))
            (drop 1 (map anno (querySelectorAll sel_field_error P)))"
    "\<And>Q. Q \<in> set (nodes (root s)) \<Longrightarrow> set (ids Q) \<inter> set (ids P) = {} \<Longrightarrow> Q \<in> set (nodes (root s1))"
proof -
  let ?t = "root s"
  let ?rm = "classList_remove ''error''"
  from wf have d: "distinct (ids ?t)" and fr: "\<forall>i \<in> set (ids ?t). i < next_id s"
    by (auto simp: wf_world_def)
  from parentNode_D[OF P] have Pn: "P \<in> set (nodes ?t)" and fk: "f \<in> nid ` set (kids P)" by auto
  from getNode_D[OF F] have Fn: "F \<in> set (nodes ?t)" and Fi: "nid F = f" by auto
  from fk obtain k where k: "k \<in> set (kids P)" "nid k = f" by auto
  have "k \<in> set (nodes ?t)" using kid_in_nodes[OF Pn k(1)] .
  with node_unique[OF d this Fn] k(2) Fi have kF: "k = F" by simp
  have fP: "f \<in> set (ids P)" using fk by (rule kid_id_in_ids)
  define t1 where "t1 = (case querySelector sel_field_error P of None \<Rightarrow> ?t
                          | Some E \<Rightarrow> removeNode (nid E) ?t)"
  define P0 where "P0 = (case querySelector sel_field_error P of None \<Rightarrow> P
                          | Some E \<Rightarrow> removeNode (nid E) P)"
  define F0 where "F0 = (case querySelector sel_field_error P of None \<Rightarrow> F
                          | Some E \<Rightarrow> removeNode (nid E) F)"
  have step1: "distinct (ids t1) \<and> set (ids t1) \<subseteq> set (ids ?t) \<and> P0 \<in> set (nodes t1) \<and> nid P0 = nid P
      \<and> set (ids P0) \<subseteq> set (ids P) \<and> F0 \<in> set (kids P0) \<and> nid F0 = f \<and> el F0 = el F
      \<and> subseq (map anno (querySelectorAll sel_field_error P0))
               (drop 1 (map anno (querySelectorAll sel_field_error P)))
      \<and> (\<forall>Q \<in> set (nodes ?t). set (ids Q) \<inter> set (ids P) = {} \<longrightarrow> Q \<in> set (nodes t1))"
  proof (cases "querySelector sel_field_error P")
    case None
    then show ?thesis
      using d Pn k kF Fi querySelector_None[OF None] by (simp add: t1_def P0_def F0_def)
  next
    case (Some E)
    from querySelector_Some[OF Some]
    have E: "E \<in> set (descendants P)" "sel_field_error (el E)"
      and q: "querySelectorAll sel_field_error P = E # tl (querySelectorAll sel_field_error P)"
      by auto
    have ef: "nid E \<noteq> f" 
    proof
      assume "nid E = f"
      with node_unique[OF d descendants_in_nodes[OF Pn E(1)] Fn] Fi have "E = F" by simp
      with E(2) nf show False by simp
    qed
    have eP: "nid E \<in> set (ids P)" using E(1) by (auto simp: ids_def nodes_eq)
    have a: "anno E \<notin> set (map anno (querySelectorAll sel_field_error (removeNode (nid E) P)))"
      using removed_not_below[of "nid E" P] by (auto simp: anno_def querySelectorAll_def)
    have "subseq (map anno (querySelectorAll sel_field_error (removeNode (nid E) P)))
                 (anno E # map anno (tl (querySelectorAll sel_field_error P)))"
      using annos_removeNode[of sel_field_error "nid E" P] q by (metis list.simps(9))
    from subseq_drop_head[OF this a]
    have sq: "subseq (map anno (querySelectorAll sel_field_error (removeNode (nid E) P)))
                 (drop 1 (map anno (querySelectorAll sel_field_error P)))"
      by (simp add: drop_Suc map_tl)
    have Fk: "removeNode (nid E) F \<in> set (kids (removeNode (nid E) P))"
      using k(1) kF Fi ef by (auto simp: kids_removeNode)
    show ?thesis
      using distinct_removeNode[OF d, of "nid E"] set_ids_removeNode[of "nid E" ?t]
        remove_inside[OF d Pn E(1)] set_ids_removeNode[of "nid E" P] Fk Fi sq
        remove_frame[OF d Pn eP]
      by (simp add: t1_def P0_def F0_def Some)
  qed
  from step1 have dt1: "distinct (ids t1)" and sub1: "set (ids t1) \<subseteq> set (ids ?t)"
    and P0n: "P0 \<in> set (nodes t1)" and P0i: "nid P0 = nid P" and P0s: "set (ids P0) \<subseteq> set (ids P)"
    and F0k: "F0 \<in> set (kids P0)" and F0i: "nid F0 = f" and F0e: "el F0 = el F"
    and sq0: "subseq (map anno (querySelectorAll sel_field_error P0))
               (drop 1 (map anno (querySelectorAll sel_field_error P)))"
    and fr0: "\<forall>Q \<in> set (nodes ?t). set (ids Q) \<inter> set (ids P) = {} \<longrightarrow> Q \<in> set (nodes t1)"
    by simp_all
  define s1 where "s1 = s\<lparr>root := updateElement f ?rm t1\<rparr>"
  have c: "clearFieldError s f = Some s1"
    by (simp add: clearFieldError_def P s1_def t1_def Let_def)
  have r1: "root s1 = updateElement f ?rm t1" by (simp add: s1_def)
  have d1: "distinct (ids (root s1))" using dt1 by (simp add: r1)
  have w1: "wf_world s1" using dt1 sub1 fr by (auto simp: wf_world_def s1_def)
  let ?P1 = "updateElement f ?rm P0" and ?F1 = "updateElement f ?rm F0"
  have P1n: "?P1 \<in> set (nodes (root s1))" using P0n by (simp add: r1 nodes_updateElement)
  have F1k: "?F1 \<in> set (kids ?P1)" using F0k by (simp add: kids_updateElement)
  have "nid ?F1 = f" using F0i by simp
  with F1k have "f \<in> nid ` set (kids ?P1)" by (rule rev_image_eqI[OF _ sym])
  with P1n d1 have p1: "parentNode f (root s1) = Some ?P1" by (simp add: parentNode_iff)
  have "?F1 \<in> set (nodes (root s1))" using kid_in_nodes[OF P1n F1k] .
  with d1 F0i have g1: "getNode f (root s1) = Some ?F1" by (simp add: getNode_iff)
  have e1: "el ?F1 = ?rm (el F)" using F0i F0e by (simp add: el_updateElement)
  have a1: "subseq (map anno (querySelectorAll sel_field_error ?P1))
            (drop 1 (map anno (querySelectorAll sel_field_error P)))"
  proof -
    have "map anno (querySelectorAll sel_field_error ?P1) = map anno (querySelectorAll sel_field_error P0)"
      by (rule annos_updateElement) (simp_all, simp add: classList_remove_def)
    with sq0 show ?thesis by simp
  qed
  have fr1: "Q \<in> set (nodes (root s1))" if "Q \<in> set (nodes ?t)" "set (ids Q) \<inter> set (ids P) = {}" for Q
  proof -
    from that fr0 have "Q \<in> set (nodes t1)" by blast
    moreover have "f \<notin> set (ids Q)" using that(2) fP by auto
    ultimately show ?thesis by (simp add: r1 update_frame)
  qed
  have i1: "nid ?P1 = nid P" using P0i by simp
  have u1: "set (ids ?P1) \<subseteq> set (ids P)" using P0s by simp
  show ?thesis
    by (rule that[OF c w1 _ _ _ _ p1 i1 u1 g1 e1 a1 fr1]) (simp_all add: s1_def)
qed

lemma kid_is_node:
  assumes d: "distinct (ids t)" and P: "parentNode f t = Some P" and F: "getNode f t = Some F"
  shows "F \<in> set (kids P)"
proof -
  from parentNode_D[OF P] have Pn: "P \<in> set (nodes t)" and fk: "f \<in> nid ` set (kids P)" by auto
  from getNode_D[OF F] have Fn: "F \<in> set (nodes t)" and Fi: "nid F = f" by auto
  from fk obtain k where k: "k \<in> set (kids P)" "nid k = f" by auto
  have "k \<in> set (nodes t)" using kid_in_nodes[OF Pn k(1)] .
  with node_unique[OF d this Fn] k(2) Fi have "k = F" by simp
  with k(1) show ?thesis by simp
qed

lemma querySelectorAll_append_leaf:
  "querySelectorAll sel (Node p a (ks @ [Node i b []])) =
   querySelectorAll sel (Node p a ks) @ (if sel b then [Node i b []] else [])"
  by (simp add: querySelectorAll_def descendants_def)

lemma ids_append_leaf: "ids (Node p a (ks @ [Node i b []])) = ids (Node p a ks) @ [i]"
  by (simp add: ids_Node)

lemma showFieldError_ok:
  assumes wf: "wf_world s" and P: "parentNode f (root s) = Some P"
    and F: "getNode f (root s) = Some F" and nf: "\<not> sel_field_error (el F)"
  obtains s2 P2 F2 L where
    "showFieldError s f message = Some s2" "wf_world s2"
    "next_id s2 = Suc (next_id s)" "csrfToken s2 = csrfToken s" "clock s2 = clock s" "timers s2 = timers s"
    "parentNode f (root s2) = Some P2" "nid P2 = nid P" "set (ids P2) \<subseteq> insert (next_id s) (set (ids P))"
    "getNode f (root s2) = Some F2"
    "el F2 = classList_add ''error'' (classList_remove ''error'' (el F))"
    "subseq L (drop 1 (map anno (querySelectorAll sel_field_error P)))"
    "map anno (querySelectorAll sel_field_error P2) = L @ [(next_id s, message)]"
    "\<And>Q. Q \<in> set (nodes (root s)) \<Longrightarrow> set (ids Q) \<inter> set (ids P) = {} \<Longrightarrow> Q \<in> set (nodes (root s2))"
proof -
  let ?add = "classList_add ''error''"
  have fP: "f \<in> set (ids P)" using parentNode_D[OF P] by (auto intro: kid_id_in_ids)
  have pP: "nid P \<in> set (ids P)" by (rule nid_in_ids)
  from clearFieldError_ok[OF wf P F nf]
  obtain s1 P1 F1 where c: "clearFieldError s f = Some s1" and w1: "wf_world s1"
    and n1: "next_id s1 = next_id s" and o1: "csrfToken s1 = csrfToken s" "clock s1 = clock s" "timers s1 = timers s"
    and p1: "parentNode f (root s1) = Some P1" and i1: "nid P1 = nid P" and u1: "set (ids P1) \<subseteq> set (ids P)"
    and g1: "getNode f (root s1) = Some F1" and e1: "el F1 = classList_remove ''error'' (el F)"
    and a1: "subseq (map anno (querySelectorAll sel_field_error P1))
            (drop 1 (map anno (querySelectorAll sel_field_error P)))"
    and fr1: "\<And>Q. Q \<in> set (nodes (root s)) \<Longrightarrow> set (ids Q) \<inter> set (ids P) = {} \<Longrightarrow> Q \<in> set (nodes (root s1))"
    by blast
  from w1 have d1: "distinct (ids (root s1))" and b1: "\<forall>i \<in> set (ids (root s1)). i < next_id s1"
    by (auto simp: wf_world_def)
  define c0 where "c0 = Node (next_id s1) (errorElement message) []"
  define t2 where "t2 = appendChild (nid P1) c0 (root s1)"
  define s2 where "s2 = s1\<lparr>root := updateElement f ?add t2, next_id := Suc (next_id s1)\<rparr>"
  have sh: "showFieldError s f message = Some s2"
    by (simp add: showFieldError_def c p1 s2_def t2_def c0_def errorElement_def Let_def)
  have r2: "root s2 = updateElement f ?add t2" by (simp add: s2_def)
  have ic: "ids c0 = [next_id s1]" by (simp add: c0_def ids_Node)
  have fresh: "next_id s1 \<notin> set (ids (root s1))" using b1 by auto
  have d2: "distinct (ids t2)" unfolding t2_def
    by (rule distinct_appendChild[OF d1]) (use fresh in \<open>simp_all add: ic\<close>)
  have sub2: "set (ids t2) \<subseteq> insert (next_id s1) (set (ids (root s1)))"
    using set_ids_appendChild[of "nid P1" c0 "root s1"] by (auto simp: t2_def ic)
  have "\<forall>i \<in> set (ids t2). i < Suc (next_id s1)"
  proof
    fix i assume "i \<in> set (ids t2)"
    with sub2 have "i = next_id s1 \<or> i \<in> set (ids (root s1))" by auto
    with b1 show "i < Suc (next_id s1)" by (auto simp: less_Suc_eq)
  qed
  with d2 have w2: "wf_world s2" by (simp add: wf_world_def s2_def)
  from parentNode_D[OF p1] have P1n: "P1 \<in> set (nodes (root s1))" by simp
  have F1k: "F1 \<in> set (kids P1)" by (rule kid_is_node[OF d1 p1 g1])
  have F1i: "nid F1 = f" using getNode_D[OF g1] by simp
  define P1' where "P1' = Node (nid P1) (el P1) (kids P1 @ [c0])"
  have P1'n: "P1' \<in> set (nodes t2)"
    using appendChild_mem[OF d1 P1n, of "nid P1" c0] by (simp add: t2_def P1'_def appendChild_target)
  have P1eq: "Node (nid P1) (el P1) (kids P1) = P1" by (cases P1) simp
  have q1': "querySelectorAll sel_field_error P1' = querySelectorAll sel_field_error P1 @ [c0]"
    unfolding P1'_def c0_def using querySelectorAll_append_leaf[of sel_field_error "nid P1" "el P1" "kids P1"]
    by (simp add: P1eq errorElement_def createElement_def sel_field_error_def hasClass_def)
  have id1': "ids P1' = ids P1 @ [next_id s1]"
    unfolding P1'_def c0_def using ids_append_leaf[of "nid P1" "el P1" "kids P1"] by (simp add: P1eq)
  let ?P2 = "updateElement f ?add P1'" and ?F2 = "updateElement f ?add F1"
  have P2n: "?P2 \<in> set (nodes (root s2))" using P1'n by (simp add: r2 nodes_updateElement)
  have F2k: "?F2 \<in> set (kids ?P2)" using F1k by (simp add: kids_updateElement P1'_def)
  have "nid ?F2 = f" using F1i by simp
  with F2k have "f \<in> nid ` set (kids ?P2)" by (rule rev_image_eqI[OF _ sym])
  moreover have dd2: "distinct (ids (root s2))" using d2 by (simp add: r2)
  ultimately have p2: "parentNode f (root s2) = Some ?P2" using P2n by (simp add: parentNode_iff)
  have "?F2 \<in> set (nodes (root s2))" using kid_in_nodes[OF P2n F2k] .
  with dd2 F1i have g2: "getNode f (root s2) = Some ?F2" by (simp add: getNode_iff)
  have e2: "el ?F2 = ?add (classList_remove ''error'' (el F))" using F1i e1 by (simp add: el_updateElement)
  have "map anno (querySelectorAll sel_field_error ?P2) = map anno (querySelectorAll sel_field_error P1')"
    by (rule annos_updateElement) (simp_all, simp add: classList_add_def)
  then have a2: "map anno (querySelectorAll sel_field_error ?P2)
      = map anno (querySelectorAll sel_field_error P1) @ [(next_id s, message)]"
    by (simp add: q1' anno_def c0_def errorElement_def n1)
  have i2: "nid ?P2 = nid P" using i1 by (simp add: P1'_def)
  have u2: "set (ids ?P2) \<subseteq> insert (next_id s) (set (ids P))" using u1 by (auto simp: id1' n1)
  have fr2: "Q \<in> set (nodes (root s2))" if "Q \<in> set (nodes (root s))" "set (ids Q) \<inter> set (ids P) = {}" for Q
  proof -
    from fr1[OF that] have "Q \<in> set (nodes (root s1))" .
    moreover have "nid P1 \<notin> set (ids Q)" using that(2) pP i1 by auto
    ultimately have "Q \<in> set (nodes t2)" unfolding t2_def by (rule append_frame[OF d1])
    moreover have "f \<notin> set (ids Q)" using that(2) fP by auto
    ultimately show ?thesis by (simp add: r2 update_frame)
  qed
  show ?thesis
    by (rule that[OF sh w2 _ _ _ _ p2 i2 u2 g2 e2 a1 a2 fr2]) (simp_all add: s2_def n1 o1)
qed

subsection \<open>The email pattern and validateField\<close>

lemma regex_test_Lit: "regex_test (Lit c # r) s \<longleftrightarrow> (\<exists>b. s = c # b \<and> regex_test r b)"
  by (cases s) auto

lemma regex_test_Plus:
  "regex_test (Plus p # r) s \<longleftrightarrow> (\<exists>a b. s = a @ b \<and> a \<noteq> [] \<and> list_all p a \<and> regex_test r b)"
proof (induction s)
  case Nil
  then show ?case by simp
next
  case (Cons x xs)
  show ?case
  proof
    assume "regex_test (Plus p # r) (x # xs)"
    then have px: "p x" and d: "regex_test (Plus p # r) xs \<or> regex_test r xs" by auto
    from d show "\<exists>a b. x # xs = a @ b \<and> a \<noteq> [] \<and> list_all p a \<and> regex_test r b"
    proof
      assume "regex_test (Plus p # r) xs"
      with Cons.IH obtain a b where "xs = a @ b" "a \<noteq> []" "list_all p a" "regex_test r b" by auto
      with px have "x # xs = (x # a) @ b \<and> x # a \<noteq> [] \<and> list_all p (x # a) \<and> regex_test r b" by simp
      then show ?thesis by blast
    next
      assume "regex_test r xs"
      with px have "x # xs = [x] @ xs \<and> [x] \<noteq> [] \<and> list_all p [x] \<and> regex_test r xs" by simp
      then show ?thesis by blast
    qed
  next
    assume "\<exists>a b. x # xs = a @ b \<and> a \<noteq> [] \<and> list_all p a \<and> regex_test r b"
    then obtain a b where ab: "x # xs = a @ b" "a \<noteq> []" "list_all p a" "regex_test r b" by auto
    then obtain a' where a': "a = x # a'" by (cases a) auto
    with ab have xs: "xs = a' @ b" and px: "p x" and pa: "list_all p a'" by auto
    show "regex_test (Plus p # r) (x # xs)"
    proof (cases "a' = []")
      case True
      with xs ab(4) px show ?thesis by simp
    next
      case False
      with xs pa ab(4) have "\<exists>a b. xs = a @ b \<and> a \<noteq> [] \<and> list_all p a \<and> regex_test r b" by blast
      with Cons.IH px show ?thesis by simp
    qed
  qed
qed

lemma regex_test_Plus_end: "regex_test [Plus p] s \<longleftrightarrow> s \<noteq> [] \<and> list_all p s"
  by (auto simp: regex_test_Plus)

lemma emailRegex_spec: "regex_test emailRegex v = spec_email_pattern v"
  unfolding emailRegex_def spec_email_pattern_def
  by (simp only: regex_test_Plus regex_test_Lit regex_test_Plus_end) (auto, blast+)

lemma validateField_ok:
  assumes wf: "wf_world s" and P: "parentNode f (root s) = Some P"
    and F: "getNode f (root s) = Some F" and nf: "\<not> sel_field_error (el F)"
  obtains s' P' F' L where
    "validateField s f = Some (fst (FieldValidator_spec (el F)), s')" "wf_world s'"
    "next_id s' = (if fst (FieldValidator_spec (el F)) then next_id s else Suc (next_id s))"
    "csrfToken s' = csrfToken s" "clock s' = clock s" "timers s' = timers s"
    "parentNode f (root s') = Some P'" "nid P' = nid P" "set (ids P') \<subseteq> insert (next_id s) (set (ids P))"
    "getNode f (root s') = Some F'"
    "el F' = (if fst (FieldValidator_spec (el F)) then classList_remove ''error'' (el F)
              else classList_add ''error'' (classList_remove ''error'' (el F)))"
    "subseq L (drop 1 (map anno (querySelectorAll sel_field_error P)))"
    "map anno (querySelectorAll sel_field_error P') =
       (if fst (FieldValidator_spec (el F)) then L else L @ [(next_id s, snd (FieldValidator_spec (el F)))])"
    "\<And>Q. Q \<in> set (nodes (root s)) \<Longrightarrow> set (ids Q) \<inter> set (ids P) = {} \<Longrightarrow> Q \<in> set (nodes (root s'))"
proof (cases "fst (FieldValidator_spec (el F))")
  case True
  then have v: "validateField s f = map_option (Pair True) (clearFieldError s f)"
    by (auto simp: validateField_def F FieldValidator_spec_def Let_def emailRegex_spec split: if_splits)
  from clearFieldError_ok[OF wf P F nf]
  obtain s1 P1 F1 where c: "clearFieldError s f = Some s1" "wf_world s1"
    "next_id s1 = next_id s" "csrfToken s1 = csrfToken s" "clock s1 = clock s" "timers s1 = timers s"
    "parentNode f (root s1) = Some P1" "nid P1 = nid P" "set (ids P1) \<subseteq> set (ids P)"
    "getNode f (root s1) = Some F1" "el F1 = classList_remove ''error'' (el F)"
    "subseq (map anno (querySelectorAll sel_field_error P1))
            (drop 1 (map anno (querySelectorAll sel_field_error P)))"
    and fr: "\<And>Q. Q \<in> set (nodes (root s)) \<Longrightarrow> set (ids Q) \<inter> set (ids P) = {} \<Longrightarrow> Q \<in> set (nodes (root s1))"
    by blast
  have u: "set (ids P1) \<subseteq> insert (next_id s) (set (ids P))" using c(9) by auto
  show ?thesis
    by (rule that[of s1 P1 F1 "map anno (querySelectorAll sel_field_error P1)"])
       (use True v c u fr in simp_all)
next
  case False
  then have v: "validateField s f = map_option (Pair False) (showFieldError s f (snd (FieldValidator_spec (el F))))"
    by (auto simp: validateField_def F FieldValidator_spec_def Let_def emailRegex_spec split: if_splits)
  from showFieldError_ok[OF wf P F nf, of "snd (FieldValidator_spec (el F))"]
  obtain s2 P2 F2 L where c: "showFieldError s f (snd (FieldValidator_spec (el F))) = Some s2" "wf_world s2"
    "next_id s2 = Suc (next_id s)" "csrfToken s2 = csrfToken s" "clock s2 = clock s" "timers s2 = timers s"
    "parentNode f (root s2) = Some P2" "nid P2 = nid P" "set (ids P2) \<subseteq> insert (next_id s) (set (ids P))"
    "getNode f (root s2) = Some F2"
    "el F2 = classList_add ''error'' (classList_remove ''error'' (el F))"
    "subseq L (drop 1 (map anno (querySelectorAll sel_field_error P)))"
    "map anno (querySelectorAll sel_field_error P2) = L @ [(next_id s, snd (FieldValidator_spec (el F)))]"
    and fr: "\<And>Q. Q \<in> set (nodes (root s)) \<Longrightarrow> set (ids Q) \<inter> set (ids P) = {} \<Longrightarrow> Q \<in> set (nodes (root s2))"
    by blast
  show ?thesis
    by (rule that[of s2 P2 F2 L]) (use False v c fr in simp_all)
qed

lemma attachedE:
  assumes "attached s f"
  obtains P F where "parentNode f (root s) = Some P" "getNode f (root s) = Some F" "\<not> sel_field_error (el F)"
  using assms by (auto simp: attached_def split: option.splits)

lemma annotations_annos:
  "parentNode f (root s) = Some P \<Longrightarrow> annotations s f = map snd (map anno (querySelectorAll sel_field_error P))"
  by (simp add: annotations_def anno_def comp_def)

lemma subseq_texts:
  assumes "subseq L (drop 1 (map anno xs))"
  shows "subseq (map snd L) (drop 1 (map snd (map anno xs)))"
proof -
  have "subseq (map snd L) (map snd (drop 1 (map anno xs)))" using assms by (rule subseq_map)
  then show ?thesis by (simp add: drop_map)
qed

lemma hasClass_add_remove [simp]:
  "hasClass c (classList_add c a)" "\<not> hasClass c (classList_remove c a)"
  by (auto simp: hasClass_def classList_add_def classList_remove_def)

lemma showFieldError_effect:
  assumes "wf_world s" "attached s f"
  shows "\<exists>s' L. showFieldError s f message = Some s' \<and> wf_world s' \<and> attached s' f \<and>
           subseq L (drop 1 (annotations s f)) \<and> annotations s' f = L @ [message] \<and> marked s' f"
proof -
  from assms(2) obtain P F where P: "parentNode f (root s) = Some P" and F: "getNode f (root s) = Some F"
    and nf: "\<not> sel_field_error (el F)" by (rule attachedE)
  from showFieldError_ok[OF assms(1) P F nf, of message]
  obtain s2 P2 F2 L where sh: "showFieldError s f message = Some s2" and w: "wf_world s2"
    and "next_id s2 = Suc (next_id s)" "csrfToken s2 = csrfToken s" "clock s2 = clock s" "timers s2 = timers s"
    and p2: "parentNode f (root s2) = Some P2" and "nid P2 = nid P"
    and "set (ids P2) \<subseteq> insert (next_id s) (set (ids P))"
    and g2: "getNode f (root s2) = Some F2"
    and e2: "el F2 = classList_add ''error'' (classList_remove ''error'' (el F))"
    and L: "subseq L (drop 1 (map anno (querySelectorAll sel_field_error P)))"
    and a2: "map anno (querySelectorAll sel_field_error P2) = L @ [(next_id s, message)]"
    and "\<And>Q. Q \<in> set (nodes (root s)) \<Longrightarrow> set (ids Q) \<inter> set (ids P) = {} \<Longrightarrow> Q \<in> set (nodes (root s2))"
    by blast
  have "attached s2 f" using p2 g2 e2 nf by (simp add: attached_def)
  moreover have "subseq (map snd L) (drop 1 (annotations s f))"
    using subseq_texts[OF L] by (simp add: annotations_annos[OF P])
  moreover have "annotations s2 f = map snd L @ [message]"
    by (simp add: annotations_annos[OF p2] a2)
  moreover have "marked s2 f" by (simp add: marked_def g2 e2)
  ultimately show ?thesis using sh w by blast
qed

lemma validateField_effect:
  assumes "wf_world s" "attached s f" "getNode f (root s) = Some n"
  shows "\<exists>s' L. validateField s f = Some (fst (FieldValidator_spec (el n)), s') \<and> wf_world s' \<and> attached s' f \<and>
           subseq L (drop 1 (annotations s f)) \<and>
           annotations s' f = (if fst (FieldValidator_spec (el n)) then L else L @ [snd (FieldValidator_spec (el n))]) \<and>
           marked s' f = (\<not> fst (FieldValidator_spec (el n))) \<and>
           (\<exists>n'. getNode f (root s') = Some n' \<and>
                 el n' = (if fst (FieldValidator_spec (el n)) then classList_remove ''error'' (el n)
                          else classList_add ''error'' (classList_remove ''error'' (el n))))"
proof -
  from assms(2) obtain P F where P: "parentNode f (root s) = Some P" and F: "getNode f (root s) = Some F"
    and nf: "\<not> sel_field_error (el F)" by (rule attachedE)
  from F assms(3) have Fn: "F = n" by simp
  from validateField_ok[OF assms(1) P F nf]
  obtain s' P' F' L where v: "validateField s f = Some (fst (FieldValidator_spec (el F)), s')" and w: "wf_world s'"
    and "next_id s' = (if fst (FieldValidator_spec (el F)) then next_id s else Suc (next_id s))"
    and "csrfToken s' = csrfToken s" "clock s' = clock s" "timers s' = timers s"
    and p': "parentNode f (root s') = Some P'" and "nid P' = nid P"
    and "set (ids P') \<subseteq> insert (next_id s) (set (ids P))"
    and g': "getNode f (root s') = Some F'"
    and e': "el F' = (if fst (FieldValidator_spec (el F)) then classList_remove ''error'' (el F)
              else classList_add ''error'' (classList_remove ''error'' (el F)))"
    and L: "subseq L (drop 1 (map anno (querySelectorAll sel_field_error P)))"
    and a': "map anno (querySelectorAll sel_field_error P') =
       (if fst (FieldValidator_spec (el F)) then L else L @ [(next_id s, snd (FieldValidator_spec (el F)))])"
    and "\<And>Q. Q \<in> set (nodes (root s)) \<Longrightarrow> set (ids Q) \<inter> set (ids P) = {} \<Longrightarrow> Q \<in> set (nodes (root s'))"
    by blast
  have "attached s' f" using p' g' e' nf by (simp add: attached_def)
  moreover have "subseq (map snd L) (drop 1 (annotations s f))"
    using subseq_texts[OF L] by (simp add: annotations_annos[OF P])
  moreover have "annotations s' f =
      (if fst (FieldValidator_spec (el n)) then map snd L else map snd L @ [snd (FieldValidator_spec (el n))])"
    by (simp add: annotations_annos[OF p'] a' Fn)
  moreover have "marked s' f = (\<not> fst (FieldValidator_spec (el n)))" by (simp add: marked_def g' e' Fn)
  ultimately show ?thesis using v w g' e' Fn by blast
qed

lemma not_pattern_bad: "\<not> spec_email_pattern ''bad''"
  unfolding emailRegex_spec[symmetric] by code_simp

subsection \<open>Notifications and their timers\<close>

lemma subseq_trans': "subseq xs ys \<Longrightarrow> subseq ys zs \<Longrightarrow> subseq xs zs"
  by (rule subseq_order.order_trans)

lemma subseq_set:
  assumes "subseq xs ys"
  shows "set xs \<subseteq> set ys"
proof
  fix x assume "x \<in> set xs"
  with assms obtain y where "y \<in> set ys" "x = y" by (rule list_emb_set)
  then show "x \<in> set ys" by simp
qed

lemma subseq_absent: "subseq (map label xs) (map label ys) \<Longrightarrow> i \<notin> nid ` set ys \<Longrightarrow> i \<notin> nid ` set xs"
proof
  assume a: "subseq (map label xs) (map label ys)" and b: "i \<notin> nid ` set ys" and "i \<in> nid ` set xs"
  then obtain x where x: "x \<in> set xs" "nid x = i" by auto
  then have "label x \<in> set (map label xs)" by simp
  with subseq_set[OF a] have "label x \<in> set (map label ys)" by blast
  then obtain y where "y \<in> set ys" "label y = label x" by auto
  then have "y \<in> set ys" "nid y = i" using x(2) by (simp_all add: label_def)
  with b show False by blast
qed

lemma removeAllNodes_labels:
  "subseq (map label (descendants (removeAllNodes ms t))) (map label (descendants t)) \<and>
   (\<forall>m \<in> set ms. nid m \<notin> nid ` set (descendants (removeAllNodes ms t)))"
proof (induction ms arbitrary: t)
  case Nil
  then show ?case by (simp add: removeAllNodes_def)
next
  case (Cons m ms)
  let ?t1 = "removeNode (nid m) t"
  have r: "removeAllNodes (m # ms) t = removeAllNodes ms ?t1" by (simp add: removeAllNodes_def)
  from Cons.IH[of ?t1]
  have a: "subseq (map label (descendants (removeAllNodes ms ?t1))) (map label (descendants ?t1))"
    and b: "\<forall>m \<in> set ms. nid m \<notin> nid ` set (descendants (removeAllNodes ms ?t1))" by auto
  have c: "subseq (map label (descendants ?t1)) (map label (descendants t))"
    by (rule labels_descendants_removeNode)
  have "nid m \<notin> nid ` set (descendants (removeAllNodes ms ?t1))"
    using subseq_absent[OF a removed_not_below[of "nid m" t]] .
  with subseq_trans'[OF a c] b show ?case unfolding r by simp
qed

lemma nid_removeAllNodes [simp]: "nid (removeAllNodes ms t) = nid t"
  by (induction ms arbitrary: t) (simp_all add: removeAllNodes_def)

lemma distinct_removeAllNodes: "distinct (ids t) \<Longrightarrow> distinct (ids (removeAllNodes ms t))"
  by (induction ms arbitrary: t) (simp_all add: removeAllNodes_def distinct_removeNode)

lemma set_ids_removeAllNodes: "set (ids (removeAllNodes ms t)) \<subseteq> set (ids t)"
proof (induction ms arbitrary: t)
  case Nil
  then show ?case by (simp add: removeAllNodes_def)
next
  case (Cons m ms)
  have "removeAllNodes (m # ms) t = removeAllNodes ms (removeNode (nid m) t)"
    by (simp add: removeAllNodes_def)
  with Cons.IH[of "removeNode (nid m) t"] set_ids_removeNode[of "nid m" t] show ?case by auto
qed

lemma querySelectorAll_removeAll:
  "querySelectorAll sel (removeAllNodes (querySelectorAll sel t) t) = []"
proof -
  let ?t1 = "removeAllNodes (querySelectorAll sel t) t"
  from removeAllNodes_labels[of "querySelectorAll sel t" t]
  have a: "subseq (map label (descendants ?t1)) (map label (descendants t))"
    and b: "\<forall>m \<in> set (querySelectorAll sel t). nid m \<notin> nid ` set (descendants ?t1)" by blast+
  have "\<not> sel (el d)" if d: "d \<in> set (descendants ?t1)" for d
  proof
    assume s: "sel (el d)"
    from d have "label d \<in> set (map label (descendants ?t1))" by simp
    with subseq_set[OF a] have "label d \<in> set (map label (descendants t))" by blast
    then obtain d0 where d0: "d0 \<in> set (descendants t)" "label d0 = label d" by auto
    from d0(2) have e: "nid d0 = nid d" "el d0 = el d" by (simp_all add: label_def)
    with s d0(1) have "d0 \<in> set (querySelectorAll sel t)" by (simp add: querySelectorAll_def)
    with b have "nid d0 \<notin> nid ` set (descendants ?t1)" by blast
    with d e(1) show False by (metis imageI)
  qed
  then have "\<forall>d \<in> set (descendants ?t1). \<not> sel (el d)" by blast
  then have "filter (\<lambda>d. sel (el d)) (descendants ?t1) = []" by (rule filter_False)
  then show ?thesis by (simp only: querySelectorAll_def[of sel ?t1])
qed

lemma messageShown_root:
  "root (messageShown s message ty) =
     appendChild (nid (root s))
       (Node (next_id s)
          ((createElement ''div'')
             \<lparr>el_class := [''security-message'', ''security-'' @ type_name ty], el_text := message\<rparr>) [])
       (removeAllNodes (querySelectorAll sel_security_message (root s)) (root s))"
  by (simp add: messageShown_def Let_def removeAllNodes_def[symmetric])

lemma querySelectorAll_appendChild_root:
  "querySelectorAll sel (appendChild (nid t) (Node j b []) t) =
   querySelectorAll sel t @ (if sel b then [Node j b []] else [])"
  by (cases t) (simp add: querySelectorAll_def descendants_def)

lemma has_parent: "d \<in> set (descendants t) \<Longrightarrow> \<exists>P \<in> set (nodes t). d \<in> set (kids P)"
proof (induction t)
  case (Node i a ks)
  from Node.prems obtain k where k: "k \<in> set ks" "d \<in> set (nodes k)" by (auto simp: descendants_def)
  show ?case
  proof (cases "d = k")
    case True
    with k(1) show ?thesis by auto
  next
    case False
    with k(2) have "d \<in> set (descendants k)" by (simp add: nodes_eq)
    from Node.IH[OF k(1) this] obtain P where "P \<in> set (nodes k)" "d \<in> set (kids P)" by auto
    with k(1) show ?thesis by auto
  qed
qed

lemma no_parent_absent: "parentNode i t = None \<Longrightarrow> i \<notin> nid ` set (descendants t)"
proof
  assume n: "parentNode i t = None" and "i \<in> nid ` set (descendants t)"
  then obtain d where d: "d \<in> set (descendants t)" "nid d = i" by auto
  from has_parent[OF d(1)] obtain P where "P \<in> set (nodes t)" "d \<in> set (kids P)" by auto
  with d(2) have "\<exists>P \<in> set (nodes t). i \<in> set (map nid (kids P))" by auto
  with n show False by (simp add: parentNode_def find_None_iff)
qed

lemma timerCallback_labels:
  "subseq (map label (descendants (timerCallback i t))) (map label (descendants t)) \<and>
   i \<notin> nid ` set (descendants (timerCallback i t))"
proof (cases "parentNode i t")
  case None
  with no_parent_absent[OF None] show ?thesis by (simp add: timerCallback_def)
next
  case (Some P)
  then show ?thesis
    using labels_descendants_removeNode[of i t] removed_not_below[of i t]
    by (simp add: timerCallback_def)
qed

lemma runCallbacks_labels:
  "subseq (map label (descendants (runCallbacks due t))) (map label (descendants t)) \<and>
   (\<forall>d \<in> set due. snd d \<notin> nid ` set (descendants (runCallbacks due t)))"
proof (induction due arbitrary: t)
  case Nil
  then show ?case by (simp add: runCallbacks_def)
next
  case (Cons x due)
  let ?t1 = "timerCallback (snd x) t"
  have r: "runCallbacks (x # due) t = runCallbacks due ?t1" by (simp add: runCallbacks_def)
  from Cons.IH[of ?t1]
  have a: "subseq (map label (descendants (runCallbacks due ?t1))) (map label (descendants ?t1))"
    and b: "\<forall>d \<in> set due. snd d \<notin> nid ` set (descendants (runCallbacks due ?t1))" by auto
  from timerCallback_labels[of "snd x" t]
  have c: "subseq (map label (descendants ?t1)) (map label (descendants t))"
    and e: "snd x \<notin> nid ` set (descendants ?t1)" by auto
  have "snd x \<notin> nid ` set (descendants (runCallbacks due ?t1))"
    using subseq_absent[OF a e] .
  with subseq_trans'[OF a c] b show ?case unfolding r by simp
qed

lemma advance_root:
  "root (advance s t) = runCallbacks (sort_key fst (filter (\<lambda>d. fst d \<le> t) (timers s))) (root s)"
  by (simp add: advance_def Let_def runCallbacks_def)

lemma notifications_labels:
  "notifications s = map (\<lambda>x. el_text (snd x)) (filter (\<lambda>x. sel_security_message (snd x)) (map label (descendants (root s))))"
  by (simp add: notifications_def querySelectorAll_def filter_map comp_def label_def)

lemma advance_notifications: "subseq (notifications (advance s t)) (notifications s)"
proof -
  from runCallbacks_labels[of "sort_key fst (filter (\<lambda>d. fst d \<le> t) (timers s))" "root s"]
  have "subseq (map label (descendants (root (advance s t)))) (map label (descendants (root s)))"
    by (simp add: advance_root)
  then have "subseq (filter (\<lambda>x. sel_security_message (snd x)) (map label (descendants (root (advance s t)))))
                    (filter (\<lambda>x. sel_security_message (snd x)) (map label (descendants (root s))))"
    by (rule subseq_filter)
  then show ?thesis unfolding notifications_labels by (rule subseq_map)
qed

lemma messageShown_notifications: "notifications (messageShown s message ty) = [message]"
proof -
  let ?t1 = "removeAllNodes (querySelectorAll sel_security_message (root s)) (root s)"
  have n: "nid (root s) = nid ?t1" by simp
  show ?thesis
    unfolding notifications_def messageShown_root
    unfolding n querySelectorAll_appendChild_root querySelectorAll_removeAll
    by (simp add: sel_security_message_def hasClass_def)
qed

lemma messageShown_wf: "wf_world s \<Longrightarrow> wf_world (messageShown s message ty)"
proof -
  assume wf: "wf_world s"
  let ?t1 = "removeAllNodes (querySelectorAll sel_security_message (root s)) (root s)"
  let ?c = "Node (next_id s) ((createElement ''div'')
             \<lparr>el_class := [''security-message'', ''security-'' @ type_name ty], el_text := message\<rparr>) []"
  from wf have d: "distinct (ids (root s))" and b: "\<forall>i \<in> set (ids (root s)). i < next_id s"
    by (auto simp: wf_world_def)
  have d1: "distinct (ids ?t1)" using d by (rule distinct_removeAllNodes)
  have s1: "set (ids ?t1) \<subseteq> set (ids (root s))" by (rule set_ids_removeAllNodes)
  have ic: "ids ?c = [next_id s]" by (simp add: ids_Node)
  have fresh: "next_id s \<notin> set (ids ?t1)" using b s1 by auto
  have d2: "distinct (ids (appendChild (nid (root s)) ?c ?t1))"
    by (rule distinct_appendChild[OF d1]) (use fresh in \<open>simp_all add: ids_Node\<close>)
  have s2: "set (ids (appendChild (nid (root s)) ?c ?t1)) \<subseteq> insert (next_id s) (set (ids (root s)))"
    using set_ids_appendChild[of "nid (root s)" ?c ?t1] s1 by (auto simp: ids_Node)
  have "\<forall>i \<in> set (ids (appendChild (nid (root s)) ?c ?t1)). i < Suc (next_id s)"
  proof
    fix i assume "i \<in> set (ids (appendChild (nid (root s)) ?c ?t1))"
    with s2 have "i = next_id s \<or> i \<in> set (ids (root s))" by auto
    with b show "i < Suc (next_id s)" by (auto simp: less_Suc_eq)
  qed
  with d2 show ?thesis
    by (simp add: wf_world_def messageShown_root) (simp add: messageShown_def Let_def)
qed

lemma messageShown_root':
  "root (messageShown s message ty) =
     appendChild (nid (removeAllNodes (querySelectorAll sel_security_message (root s)) (root s)))
       (Node (next_id s) (messageElement message ty) [])
       (removeAllNodes (querySelectorAll sel_security_message (root s)) (root s))"
  by (simp add: messageShown_root messageElement_def)

lemma sel_messageElement: "sel_security_message (messageElement message ty)"
  by (simp add: messageElement_def sel_security_message_def hasClass_def)

lemma messageShown_matches:
  "querySelectorAll sel_security_message (root (messageShown s message ty))
     = [Node (next_id s) (messageElement message ty) []]"
  unfolding messageShown_root' querySelectorAll_appendChild_root querySelectorAll_removeAll
  by (simp add: sel_messageElement)

lemma messageShown_kid:
  "Node (next_id s) (messageElement message ty) [] \<in> set (kids (root (messageShown s message ty)))"
  unfolding messageShown_root' by (simp add: appendChild_target)

lemma messageShown_timers:
  "timers (messageShown s message ty) = timers s @ [(clock s + 5000, next_id s)]"
  by (simp add: messageShown_def Let_def)

lemma messageShown_clock: "clock (messageShown s message ty) = clock s"
  by (simp add: messageShown_def Let_def)

lemma subseq_singleton_cases: "subseq xs [y] \<Longrightarrow> xs = [] \<or> xs = [y]"
proof (cases xs)
  case Nil
  then show ?thesis by simp
next
  case (Cons x xs')
  assume a: "subseq xs [y]"
  from list_emb_length[OF a] Cons have "xs' = []" by simp
  with a Cons have "subseq [x] [y]" by simp
  then have "x = y" by (simp split: if_splits)
  with Cons \<open>xs' = []\<close> show ?thesis by simp
qed

lemma matches_labels:
  "map label (querySelectorAll sel t) = filter (\<lambda>x. sel (snd x)) (map label (descendants t))"
  by (simp add: querySelectorAll_def filter_map comp_def label_def)

lemma advance_matches:
  "subseq (map label (querySelectorAll sel (root (advance s u)))) (map label (querySelectorAll sel (root s)))"
proof -
  from runCallbacks_labels[of "sort_key fst (filter (\<lambda>d. fst d \<le> u) (timers s))" "root s"]
  have "subseq (map label (descendants (root (advance s u)))) (map label (descendants (root s)))"
    by (simp add: advance_root)
  then show ?thesis unfolding matches_labels by (rule subseq_filter)
qed

lemma notifications_matches:
  "notifications s = map (\<lambda>x. el_text (snd x)) (map label (querySelectorAll sel_security_message (root s)))"
  by (simp add: notifications_def comp_def label_def)

lemma advance_expired:
  assumes "(d, i) \<in> set (timers s)" "d \<le> u"
    and "map label (querySelectorAll sel_security_message (root s)) = [(i, e)]"
  shows "notifications (advance s u) = []"
proof -
  let ?due = "sort_key fst (filter (\<lambda>d. fst d \<le> u) (timers s))"
  let ?m = "map label (querySelectorAll sel_security_message (root (advance s u)))"
  have "(d, i) \<in> set ?due" using assms(1,2) by simp
  with runCallbacks_labels[of ?due "root s"]
  have ab: "i \<notin> nid ` set (descendants (root (advance s u)))" by (force simp: advance_root)
  have "subseq ?m [(i, e)]" using advance_matches[of sel_security_message s u] assms(3) by simp
  then have "?m = [] \<or> ?m = [(i, e)]" by (rule subseq_singleton_cases)
  moreover have "?m \<noteq> [(i, e)]"
  proof
    assume "?m = [(i, e)]"
    then have "(i, e) \<in> set ?m" by simp
    then obtain x where "x \<in> set (descendants (root (advance s u)))" "label x = (i, e)"
      by (auto simp: querySelectorAll_def)
    then have "i \<in> nid ` set (descendants (root (advance s u)))" by (force simp: label_def)
    with ab show False by simp
  qed
  ultimately have "?m = []" by simp
  then show ?thesis unfolding notifications_matches by simp
qed

lemma removeNode_leaf: "kids c = [] \<Longrightarrow> removeNode j c = c"
  by (cases c) simp

lemma timerCallback_keeps:
  assumes "c \<in> set (kids t)" "kids c = []" "nid c \<noteq> j"
  shows "c \<in> set (kids (timerCallback j t))"
proof (cases "parentNode j t")
  case None
  with assms(1) show ?thesis by (simp add: timerCallback_def)
next
  case (Some P)
  have "removeNode j c \<in> set (kids (removeNode j t))"
    using assms(1,3) by (simp add: kids_removeNode)
  with assms(2) Some show ?thesis by (simp add: timerCallback_def removeNode_leaf)
qed

lemma runCallbacks_keeps:
  "c \<in> set (kids t) \<Longrightarrow> kids c = [] \<Longrightarrow> \<forall>d \<in> set due. snd d \<noteq> nid c \<Longrightarrow>
   c \<in> set (kids (runCallbacks due t))"
proof (induction due arbitrary: t)
  case Nil
  then show ?case by (simp add: runCallbacks_def)
next
  case (Cons x due)
  have r: "runCallbacks (x # due) t = runCallbacks due (timerCallback (snd x) t)"
    by (simp add: runCallbacks_def)
  have "c \<in> set (kids (timerCallback (snd x) t))"
    using Cons.prems by (intro timerCallback_keeps) auto
  from Cons.IH[OF this Cons.prems(2)] Cons.prems(3) show ?case unfolding r by simp
qed

lemma advance_pending:
  assumes "\<forall>x \<in> set (timers s). snd x < next_id s" "u < clock s + 5000"
  shows "notifications (advance (messageShown s message ty) u) = [message]"
proof -
  let ?s1 = "messageShown s message ty"
  let ?c = "Node (next_id s) (messageElement message ty) []"
  let ?due = "sort_key fst (filter (\<lambda>d. fst d \<le> u) (timers ?s1))"
  let ?m = "map label (querySelectorAll sel_security_message (root (advance ?s1 u)))"
  have "\<forall>d \<in> set ?due. snd d \<noteq> nid ?c"
    using assms by (auto simp: messageShown_timers)
  with runCallbacks_keeps[OF messageShown_kid[of s message ty], of ?due]
  have "?c \<in> set (kids (root (advance ?s1 u)))" by (simp add: advance_root)
  then have "?c \<in> set (descendants (root (advance ?s1 u)))"
    unfolding descendants_def using self_in_nodes[of ?c] by (simp del: nodes.simps) blast
  then have "?c \<in> set (querySelectorAll sel_security_message (root (advance ?s1 u)))"
    by (simp add: querySelectorAll_def sel_messageElement)
  then have ne: "?m \<noteq> []" by auto
  have "subseq ?m [label ?c]"
    using advance_matches[of sel_security_message ?s1 u] by (simp add: messageShown_matches)
  then have "?m = [] \<or> ?m = [label ?c]" by (rule subseq_singleton_cases)
  with ne have "?m = [label ?c]" by simp
  then show ?thesis unfolding notifications_matches by (simp add: label_def messageElement_def)
qed

lemma advance_due:
  assumes "clock s + 5000 \<le> u"
  shows "notifications (advance (messageShown s message ty) u) = []"
proof (rule advance_expired)
  show "(clock s + 5000, next_id s) \<in> set (timers (messageShown s message ty))"
    by (simp add: messageShown_timers)
  show "clock s + 5000 \<le> u" by (rule assms)
  show "map label (querySelectorAll sel_security_message (root (messageShown s message ty)))
          = [(next_id s, messageElement message ty)]"
    by (simp add: messageShown_matches label_def)
qed

subsection \<open>Files and validateFileUpload\<close>

lemma find_map': "find P (map f xs) = map_option f (find (\<lambda>x. P (f x)) xs)"
  by (induction xs) simp_all

lemma parentNode_updateElement:
  "parentNode g (updateElement f h t) = map_option (updateElement f h) (parentNode g t)"
  by (simp add: parentNode_def nodes_updateElement find_map' kids_updateElement comp_def image_image)

lemma getNode_updateElement:
  "getNode g (updateElement f h t) = map_option (updateElement f h) (getNode g t)"
  by (simp add: getNode_def nodes_updateElement find_map')

lemma allFiles_labels: "set (allFiles t) = (\<Union>x \<in> set (map label (nodes t)). set (el_files (snd x)))"
  by (auto simp: allFiles_def label_def)

lemma allFiles_removeNode: "set (allFiles (removeNode e t)) \<subseteq> set (allFiles t)"
  unfolding allFiles_labels using subseq_set[OF labels_removeNode[of e t]] by blast

lemma allFiles_updateElement:
  "(\<And>a. set (el_files (h a)) \<subseteq> set (el_files a)) \<Longrightarrow>
   set (allFiles (updateElement f h t)) \<subseteq> set (allFiles t)"
  by (fastforce simp: allFiles_def nodes_updateElement el_updateElement split: if_splits)

lemma labels_appendChild:
  "set (map label (nodes (appendChild p c t))) \<subseteq> set (map label (nodes t)) \<union> set (map label (nodes c))"
proof (induction t)
  case (Node i a ks)
  show ?case
  proof (cases "i = p")
    case True
    then show ?thesis by (auto simp: label_def)
  next
    case False
    show ?thesis
    proof
      fix x assume "x \<in> set (map label (nodes (appendChild p c (Node i a ks))))"
      with False have "x = (i, a) \<or> (\<exists>k \<in> set ks. x \<in> set (map label (nodes (appendChild p c k))))"
        by (auto simp: label_def)
      then show "x \<in> set (map label (nodes (Node i a ks))) \<union> set (map label (nodes c))"
      proof
        assume "x = (i, a)"
        then show ?thesis by (simp add: label_def)
      next
        assume "\<exists>k \<in> set ks. x \<in> set (map label (nodes (appendChild p c k)))"
        then obtain k where k: "k \<in> set ks" "x \<in> set (map label (nodes (appendChild p c k)))" by blast
        from Node.IH[OF k(1)] k(2)
        have "x \<in> set (map label (nodes k)) \<or> x \<in> set (map label (nodes c))" by blast
        with k(1) show ?thesis by auto
      qed
    qed
  qed
qed

lemma allFiles_appendChild:
  "set (allFiles (appendChild p c t)) \<subseteq> set (allFiles t) \<union> set (allFiles c)"
  unfolding allFiles_labels using labels_appendChild[of p c t] by blast

lemma clearFieldError_files:
  "clearFieldError s f = Some s1 \<Longrightarrow> set (allFiles (root s1)) \<subseteq> set (allFiles (root s))"
proof -
  assume a: "clearFieldError s f = Some s1"
  have u: "set (allFiles (updateElement f (classList_remove ''error'') t)) \<subseteq> set (allFiles t)" for t
    by (rule allFiles_updateElement) (simp add: classList_remove_def)
  from a show ?thesis
    using u allFiles_removeNode
    by (auto simp: clearFieldError_def Let_def split: option.splits) (meson subsetD)+
qed

lemma showFieldError_files:
  "showFieldError s f m = Some s2 \<Longrightarrow> set (allFiles (root s2)) \<subseteq> set (allFiles (root s))"
proof -
  assume a: "showFieldError s f m = Some s2"
  then obtain s1 p where c: "clearFieldError s f = Some s1" and p: "parentNode f (root s1) = Some p"
    and r: "root s2 = updateElement f (classList_add ''error'')
              (appendChild (nid p) (Node (next_id s1) (errorElement m) []) (root s1))"
    by (auto simp: showFieldError_def Let_def errorElement_def split: option.splits)
  have "set (allFiles (root s2)) \<subseteq> set (allFiles (appendChild (nid p) (Node (next_id s1) (errorElement m) []) (root s1)))"
    unfolding r by (rule allFiles_updateElement) (simp add: classList_add_def)
  also have "\<dots> \<subseteq> set (allFiles (root s1)) \<union> set (allFiles (Node (next_id s1) (errorElement m) []))"
    by (rule allFiles_appendChild)
  also have "\<dots> = set (allFiles (root s1))"
    by (simp add: allFiles_def errorElement_def createElement_def)
  also have "\<dots> \<subseteq> set (allFiles (root s))" using c by (rule clearFieldError_files)
  finally show ?thesis .
qed

lemma set_allowedTypes: "set allowedTypes = spec_allowed_types"
  by (simp add: allowedTypes_def spec_allowed_types_def)

lemma maxSize_value: "maxSize = 5242880"
  by (simp add: maxSize_def)

lemma sel_resetValue [simp]: "sel_field_error (resetValue a) = sel_field_error a"
  by (simp add: sel_field_error_def hasClass_def resetValue_def)

lemma reset_effect:
  assumes P: "parentNode f (root s1) = Some P" and F: "getNode f (root s1) = Some F"
  shows "annotations (s1\<lparr>root := updateElement f resetValue (root s1)\<rparr>) f = annotations s1 f"
    and "getNode f (root (s1\<lparr>root := updateElement f resetValue (root s1)\<rparr>))
           = Some (updateElement f resetValue F)"
    and "set (allFiles (root (s1\<lparr>root := updateElement f resetValue (root s1)\<rparr>)))
           \<subseteq> set (allFiles (root s1))"
proof -
  have "map anno (querySelectorAll sel_field_error (updateElement f resetValue P))
          = map anno (querySelectorAll sel_field_error P)"
    by (rule annos_updateElement) (simp, simp add: resetValue_def)
  then have "map snd (map anno (querySelectorAll sel_field_error (updateElement f resetValue P)))
          = map snd (map anno (querySelectorAll sel_field_error P))" by simp
  moreover have "parentNode f (root (s1\<lparr>root := updateElement f resetValue (root s1)\<rparr>))
          = Some (updateElement f resetValue P)"
    by (simp add: parentNode_updateElement P)
  ultimately show "annotations (s1\<lparr>root := updateElement f resetValue (root s1)\<rparr>) f = annotations s1 f"
    by (simp only: annotations_annos[OF P] annotations_annos)
  show "getNode f (root (s1\<lparr>root := updateElement f resetValue (root s1)\<rparr>))
           = Some (updateElement f resetValue F)"
    by (simp add: getNode_updateElement F)
  show "set (allFiles (root (s1\<lparr>root := updateElement f resetValue (root s1)\<rparr>)))
           \<subseteq> set (allFiles (root s1))"
    by (simp, rule allFiles_updateElement) (simp add: resetValue_def)
qed

lemma validateFileUpload_rejects:
  assumes wf: "wf_world s" and at: "attached s input" and n: "getNode input (root s) = Some n"
    and ty: "el_type (el n) = ''file''"
  shows "\<exists>s1 n'. showFieldError s input message = Some s1 \<and>
           (\<exists>L. subseq L (drop 1 (annotations s input)) \<and>
              annotations (s1\<lparr>root := updateElement input resetValue (root s1)\<rparr>) input = L @ [message]) \<and>
           getNode input (root (s1\<lparr>root := updateElement input resetValue (root s1)\<rparr>)) = Some n' \<and>
           el_value (el n') = [] \<and> el_files (el n') = [] \<and>
           set (allFiles (root (s1\<lparr>root := updateElement input resetValue (root s1)\<rparr>)))
             \<subseteq> set (allFiles (root s))"
proof -
  from at obtain P F where P: "parentNode input (root s) = Some P" and F: "getNode input (root s) = Some F"
    and nf: "\<not> sel_field_error (el F)" by (rule attachedE)
  from F n have Fn: "F = n" by simp
  from showFieldError_ok[OF wf P F nf, of message]
  obtain s2 P2 F2 L where sh: "showFieldError s input message = Some s2" and "wf_world s2"
    and "next_id s2 = Suc (next_id s)" "csrfToken s2 = csrfToken s" "clock s2 = clock s" "timers s2 = timers s"
    and p2: "parentNode input (root s2) = Some P2" and "nid P2 = nid P"
    and "set (ids P2) \<subseteq> insert (next_id s) (set (ids P))"
    and g2: "getNode input (root s2) = Some F2"
    and e2: "el F2 = classList_add ''error'' (classList_remove ''error'' (el F))"
    and L: "subseq L (drop 1 (map anno (querySelectorAll sel_field_error P)))"
    and a2: "map anno (querySelectorAll sel_field_error P2) = L @ [(next_id s, message)]"
    and "\<And>Q. Q \<in> set (nodes (root s)) \<Longrightarrow> set (ids Q) \<inter> set (ids P) = {} \<Longrightarrow> Q \<in> set (nodes (root s2))"
    by blast
  let ?s' = "s2\<lparr>root := updateElement input resetValue (root s2)\<rparr>"
  have a: "annotations ?s' input = map snd L @ [message]"
    by (simp add: reset_effect(1)[OF p2 g2] annotations_annos[OF p2] a2)
  have sb: "subseq (map snd L) (drop 1 (annotations s input))"
    using subseq_texts[OF L] by (simp add: annotations_annos[OF P])
  have g: "getNode input (root ?s') = Some (updateElement input resetValue F2)"
    by (rule reset_effect(2)[OF p2 g2])
  have i2: "nid F2 = input" using getNode_D[OF g2] by simp
  have t2: "el_type (el F2) = ''file''" using e2 ty Fn
    by (simp add: classList_add_def classList_remove_def)
  have v: "el_value (el (updateElement input resetValue F2)) = []"
    "el_files (el (updateElement input resetValue F2)) = []"
    using i2 t2 by (simp_all add: el_updateElement resetValue_def)
  have "set (allFiles (root ?s')) \<subseteq> set (allFiles (root s2))" by (rule reset_effect(3)[OF p2 g2])
  with showFieldError_files[OF sh] have f: "set (allFiles (root ?s')) \<subseteq> set (allFiles (root s))" by blast
  from sh a sb g v f show ?thesis by blast
qed

lemma clearFieldError_effect:
  assumes "wf_world s" "attached s f"
  shows "\<exists>s1. clearFieldError s f = Some s1 \<and> wf_world s1 \<and> attached s1 f \<and>
           subseq (annotations s1 f) (drop 1 (annotations s f)) \<and> \<not> marked s1 f"
proof -
  from assms(2) obtain P F where P: "parentNode f (root s) = Some P" and F: "getNode f (root s) = Some F"
    and nf: "\<not> sel_field_error (el F)" by (rule attachedE)
  from clearFieldError_ok[OF assms(1) P F nf]
  obtain s1 P1 F1 where c: "clearFieldError s f = Some s1" and w: "wf_world s1"
    and "next_id s1 = next_id s" "csrfToken s1 = csrfToken s" "clock s1 = clock s" "timers s1 = timers s"
    and p1: "parentNode f (root s1) = Some P1" and "nid P1 = nid P" "set (ids P1) \<subseteq> set (ids P)"
    and g1: "getNode f (root s1) = Some F1" and e1: "el F1 = classList_remove ''error'' (el F)"
    and a1: "subseq (map anno (querySelectorAll sel_field_error P1))
            (drop 1 (map anno (querySelectorAll sel_field_error P)))"
    and "\<And>Q. Q \<in> set (nodes (root s)) \<Longrightarrow> set (ids Q) \<inter> set (ids P) = {} \<Longrightarrow> Q \<in> set (nodes (root s1))"
    by blast
  have "attached s1 f" using p1 g1 e1 nf by (simp add: attached_def)
  moreover have "subseq (annotations s1 f) (drop 1 (annotations s f))"
    using subseq_texts[OF a1] by (simp add: annotations_annos[OF P] annotations_annos[OF p1])
  moreover have "\<not> marked s1 f" by (simp add: marked_def g1 e1)
  ultimately show ?thesis using c w by blast
qed

lemma file_page_wf: "wf_world (file_page fs)"
  by (simp add: wf_world_def file_page_def ids_Node)

lemma file_page_node: "getNode 3 (root (file_page fs)) = Some (Node 3 (file_input fs) [])"
  by (simp add: file_page_def getNode_def)

lemma file_page_attached: "attached (file_page fs) 3"
  by (simp add: attached_def file_page_node)
     (simp add: file_page_def parentNode_def file_input_def createElement_def
        sel_field_error_def hasClass_def)

lemma file_input_props:
  "el_tag (file_input fs) = ''input''" "el_type (file_input fs) = ''file''" "el_files (file_input fs) = fs"
  by (simp_all add: file_input_def createElement_def)

lemma allFiles_removeAllNodes: "set (allFiles (removeAllNodes ms t)) \<subseteq> set (allFiles t)"
proof (induction ms arbitrary: t)
  case Nil
  then show ?case by (simp add: removeAllNodes_def)
next
  case (Cons m ms)
  have "removeAllNodes (m # ms) t = removeAllNodes ms (removeNode (nid m) t)"
    by (simp add: removeAllNodes_def)
  with Cons.IH[of "removeNode (nid m) t"] allFiles_removeNode[of "nid m" t] show ?case by auto
qed

lemma messageShown_files:
  "set (allFiles (root (messageShown s message ty))) \<subseteq> set (allFiles (root s))"
proof -
  let ?t1 = "removeAllNodes (querySelectorAll sel_security_message (root s)) (root s)"
  have "set (allFiles (root (messageShown s message ty)))
          \<subseteq> set (allFiles ?t1) \<union> set (allFiles (Node (next_id s) (messageElement message ty) []))"
    unfolding messageShown_root' by (rule allFiles_appendChild)
  also have "\<dots> = set (allFiles ?t1)"
    by (simp add: allFiles_def messageElement_def createElement_def)
  also have "\<dots> \<subseteq> set (allFiles (root s))" by (rule allFiles_removeAllNodes)
  finally show ?thesis .
qed

lemma validateFileUpload_files:
  assumes "validateFileUpload s input = Some (b, s')"
  shows "set (allFiles (root s')) \<subseteq> set (allFiles (root s))"
proof -
  have u: "set (allFiles (updateElement input resetValue t)) \<subseteq> set (allFiles t)" for t
    by (rule allFiles_updateElement) (simp add: resetValue_def)
  have sh: "set (allFiles (root (s1\<lparr>root := updateElement input resetValue (root s1)\<rparr>)))
              \<subseteq> set (allFiles (root s))" if "showFieldError s input m = Some s1" for m s1
    using showFieldError_files[OF that] u[of "root s1"] by auto
  have cl: "set (allFiles (root s2)) \<subseteq> set (allFiles (root s))"
    if "clearFieldError s input = Some s1" "showSecurityMessage s1 m ty = Some s2" for m ty s1 s2
    using clearFieldError_files[OF that(1)] messageShown_files[of s1 m ty] that(2)
    by (auto simp: showSecurityMessage_conv split: if_splits)
  from assms show ?thesis
    unfolding validateFileUpload_def
    by (auto split: option.splits if_splits list.splits dest!: sh dest: cl)
qed

lemma file_page_annotations: "annotations (file_page fs) 3 = [''File too large. Maximum size is 5MB'']"
  by (simp add: annotations_def file_page_def parentNode_def querySelectorAll_def descendants_def
      file_input_def createElement_def sel_field_error_def hasClass_def)

subsection \<open>validateForm on fields with parents of their own\<close>

lemma getNode_appendChild_target:
  assumes d: "distinct (ids t)" and g: "getNode p t = Some f" and i: "i \<notin> set (ids t)"
  shows "getNode p (appendChild p (Node i e []) t) = Some (Node p (el f) (kids f @ [Node i e []]))"
proof -
  from getNode_D[OF g] have fn: "f \<in> set (nodes t)" and fi: "nid f = p" by auto
  have "appendChild p (Node i e []) f \<in> set (nodes (appendChild p (Node i e []) t))"
    by (rule appendChild_mem[OF d fn])
  then have m: "Node p (el f) (kids f @ [Node i e []]) \<in> set (nodes (appendChild p (Node i e []) t))"
    by (simp add: appendChild_target[OF fi])
  have "distinct (ids (appendChild p (Node i e []) t))"
    by (rule distinct_appendChild[OF d]) (use i in \<open>simp_all add: ids_Node\<close>)
  with m show ?thesis by (simp add: getNode_iff)
qed

lemma same_view:
  assumes "parentNode g (root s') = parentNode g (root s)" "getNode g (root s') = getNode g (root s)"
  shows "annotations s' g = annotations s g" "marked s' g = marked s g" "scope s' g = scope s g"
    "attached s' g = attached s g" "fieldResult s' g = fieldResult s g"
  using assms by (simp_all add: annotations_def marked_def scope_def attached_def fieldResult_def)

lemma scope_bound: "wf_world s \<Longrightarrow> i \<in> set (scope s g) \<Longrightarrow> i < next_id s"
proof -
  assume wf: "wf_world s" and i: "i \<in> set (scope s g)"
  then obtain Q where Q: "parentNode g (root s) = Some Q" "i \<in> set (ids Q)"
    by (cases "parentNode g (root s)") (simp_all add: scope_def)
  from parentNode_D[OF Q(1)] have "Q \<in> set (nodes (root s))" by simp
  from ids_sub[OF this] Q(2) have "i \<in> set (ids (root s))" by blast
  with wf show ?thesis by (simp add: wf_world_def)
qed

lemma frame_view:
  assumes d: "distinct (ids (root s))" and d': "distinct (ids (root s'))"
    and Q: "parentNode g (root s) = Some Q" and m: "Q \<in> set (nodes (root s'))"
  shows "parentNode g (root s') = parentNode g (root s)" "getNode g (root s') = getNode g (root s)"
proof -
  show "parentNode g (root s') = parentNode g (root s)"
    using frame_parent[OF d' Q m] Q by simp
  from parentNode_D[OF Q] obtain k where k: "k \<in> set (kids Q)" "nid k = g" and Qn: "Q \<in> set (nodes (root s))"
    by auto
  have "k \<in> set (nodes (root s))" by (rule kid_in_nodes[OF Qn k(1)])
  with d k(2) have a: "getNode g (root s) = Some k" by (simp add: getNode_iff)
  have "k \<in> set (nodes (root s'))" by (rule kid_in_nodes[OF m k(1)])
  with d' k(2) have "getNode g (root s') = Some k" by (simp add: getNode_iff)
  with a show "getNode g (root s') = getNode g (root s)" by simp
qed

lemma validateField_step:
  assumes wf: "wf_world s" and at: "attached s f" and le: "length (annotations s f) \<le> 1"
  shows "\<exists>s'. validateField s f = Some (fst (fieldResult s f), s') \<and> wf_world s' \<and>
           next_id s \<le> next_id s' \<and> attached s' f \<and>
           annotations s' f = (if fst (fieldResult s f) then [] else [snd (fieldResult s f)]) \<and>
           marked s' f = (\<not> fst (fieldResult s f)) \<and>
           set (scope s' f) \<subseteq> insert (next_id s) (set (scope s f)) \<and>
           (\<forall>Q. Q \<in> set (nodes (root s)) \<and> set (ids Q) \<inter> set (scope s f) = {} \<longrightarrow>
                Q \<in> set (nodes (root s')))"
proof -
  from at obtain P F where P: "parentNode f (root s) = Some P" and F: "getNode f (root s) = Some F"
    and nf: "\<not> sel_field_error (el F)" by (rule attachedE)
  have r: "fieldResult s f = FieldValidator_spec (el F)" by (simp add: fieldResult_def F)
  from validateField_ok[OF wf P F nf]
  obtain s' P' F' L where v: "validateField s f = Some (fst (FieldValidator_spec (el F)), s')" and w: "wf_world s'"
    and nx: "next_id s' = (if fst (FieldValidator_spec (el F)) then next_id s else Suc (next_id s))"
    and "csrfToken s' = csrfToken s" "clock s' = clock s" "timers s' = timers s"
    and p': "parentNode f (root s') = Some P'" and "nid P' = nid P"
    and u': "set (ids P') \<subseteq> insert (next_id s) (set (ids P))"
    and g': "getNode f (root s') = Some F'"
    and e': "el F' = (if fst (FieldValidator_spec (el F)) then classList_remove ''error'' (el F)
              else classList_add ''error'' (classList_remove ''error'' (el F)))"
    and L: "subseq L (drop 1 (map anno (querySelectorAll sel_field_error P)))"
    and a': "map anno (querySelectorAll sel_field_error P') =
       (if fst (FieldValidator_spec (el F)) then L else L @ [(next_id s, snd (FieldValidator_spec (el F)))])"
    and fr: "\<And>Q. Q \<in> set (nodes (root s)) \<Longrightarrow> set (ids Q) \<inter> set (ids P) = {} \<Longrightarrow> Q \<in> set (nodes (root s'))"
    by blast
  from wf w have d: "distinct (ids (root s))" and d': "distinct (ids (root s'))"
    by (simp_all add: wf_world_def)
  have "length (map anno (querySelectorAll sel_field_error P)) \<le> 1"
    using le by (simp add: annotations_annos[OF P])
  then have "drop 1 (map anno (querySelectorAll sel_field_error P)) = []" by simp
  with L have L0: "L = []" by simp
  have an: "annotations s' f = (if fst (fieldResult s f) then [] else [snd (fieldResult s f)])"
    by (simp add: annotations_annos[OF p'] a' L0 r)
  have mk: "marked s' f = (\<not> fst (fieldResult s f))" by (simp add: marked_def g' e' r)
  have at': "attached s' f" using p' g' e' nf by (simp add: attached_def)
  have sc: "set (scope s' f) \<subseteq> insert (next_id s) (set (scope s f))"
    using u' by (simp add: scope_def p' P)
  have nx': "next_id s \<le> next_id s'" by (simp add: nx)
  have frm: "Q \<in> set (nodes (root s'))"
    if "Q \<in> set (nodes (root s))" "set (ids Q) \<inter> set (scope s f) = {}" for Q
    using fr[OF that(1)] that(2) by (simp add: scope_def P)
  from v w nx' at' an mk sc frm show ?thesis unfolding r by blast
qed

lemma separate_fields_Cons:
  assumes "separate_fields s (f # fs)"
  shows "attached s f" "length (annotations s f) \<le> 1"
    "\<And>g. g \<in> set fs \<Longrightarrow> attached s g \<and> length (annotations s g) \<le> 1"
    "\<And>g. g \<in> set fs \<Longrightarrow> g \<noteq> f \<Longrightarrow> set (scope s g) \<inter> set (scope s f) = {}"
    "\<And>g h. g \<in> set fs \<Longrightarrow> h \<in> set fs \<Longrightarrow> g \<noteq> h \<Longrightarrow> set (scope s g) \<inter> set (scope s h) = {}"
  using assms unfolding separate_fields_def by simp_all

lemma attached_parent: "attached s g \<Longrightarrow> parentNode g (root s) \<noteq> None"
  by (simp add: attached_def)

lemma validateInputs_ok:
  "wf_world s \<Longrightarrow> distinct fs \<Longrightarrow> separate_fields s fs \<Longrightarrow>
   \<exists>s'. validateInputs fs ok s = Some (ok \<and> (\<forall>f \<in> set fs. fst (fieldResult s f)), s') \<and>
        wf_world s' \<and> next_id s \<le> next_id s' \<and>
        (\<forall>f \<in> set fs. annotations s' f = (if fst (fieldResult s f) then [] else [snd (fieldResult s f)]) \<and>
                       marked s' f = (\<not> fst (fieldResult s f)) \<and> attached s' f \<and>
                       (\<forall>i \<in> set (scope s' f). i \<in> set (scope s f) \<or> next_id s \<le> i)) \<and>
        (\<forall>Q. Q \<in> set (nodes (root s)) \<and> (\<forall>f \<in> set fs. set (ids Q) \<inter> set (scope s f) = {}) \<longrightarrow>
             Q \<in> set (nodes (root s')))"
proof (induction fs arbitrary: s ok)
  case Nil
  then show ?case by simp
next
  case (Cons f fs)
  note sep = separate_fields_Cons[OF Cons.prems(3)]
  from Cons.prems(2) have nf: "f \<notin> set fs" and dfs: "distinct fs" by simp_all
  from validateField_step[OF Cons.prems(1) sep(1) sep(2)]
  obtain s1 where v: "validateField s f = Some (fst (fieldResult s f), s1)" and w1: "wf_world s1"
    and n1: "next_id s \<le> next_id s1" and at1: "attached s1 f"
    and an1: "annotations s1 f = (if fst (fieldResult s f) then [] else [snd (fieldResult s f)])"
    and mk1: "marked s1 f = (\<not> fst (fieldResult s f))"
    and sc1: "set (scope s1 f) \<subseteq> insert (next_id s) (set (scope s f))"
    and fr1: "\<forall>Q. Q \<in> set (nodes (root s)) \<and> set (ids Q) \<inter> set (scope s f) = {} \<longrightarrow>
                Q \<in> set (nodes (root s1))"
    by blast
  from Cons.prems(1) w1 have d: "distinct (ids (root s))" and d1: "distinct (ids (root s1))"
    by (simp_all add: wf_world_def)
  have same: "parentNode g (root s1) = parentNode g (root s)" "getNode g (root s1) = getNode g (root s)"
    if "g \<in> set fs" for g
  proof -
    from that nf have "g \<noteq> f" by auto
    from attached_parent[of s g] sep(3)[OF that] obtain Q where Q: "parentNode g (root s) = Some Q"
      by auto
    from sep(4)[OF that \<open>g \<noteq> f\<close>] have "set (ids Q) \<inter> set (scope s f) = {}"
      by (simp add: scope_def Q)
    with fr1 parentNode_D[OF Q] have "Q \<in> set (nodes (root s1))" by blast
    from frame_view[OF d d1 Q this]
    show "parentNode g (root s1) = parentNode g (root s)" "getNode g (root s1) = getNode g (root s)"
      by simp_all
  qed
  have sv: "annotations s1 g = annotations s g" "marked s1 g = marked s g" "scope s1 g = scope s g"
    "attached s1 g = attached s g" "fieldResult s1 g = fieldResult s g" if "g \<in> set fs" for g
    by (rule same_view[OF same[OF that]])+
  have sep1: "separate_fields s1 fs"
    unfolding separate_fields_def
  proof (intro conjI ballI impI)
    fix g assume g: "g \<in> set fs"
    from sv(4)[OF g] sv(1)[OF g] sep(3)[OF g]
    show "attached s1 g" "length (annotations s1 g) \<le> 1" by simp_all
  next
    fix g h assume gh: "g \<in> set fs" "h \<in> set fs" "g \<noteq> h"
    from sv(3)[OF gh(1)] sv(3)[OF gh(2)] sep(5)[OF gh]
    show "set (scope s1 g) \<inter> set (scope s1 h) = {}" by simp
  qed
  let ?ok1 = "if \<not> fst (fieldResult s f) then False else ok"
  from Cons.IH[OF w1 dfs sep1, of ?ok1]
  obtain s' where vi: "validateInputs fs ?ok1 s1 = Some (?ok1 \<and> (\<forall>g \<in> set fs. fst (fieldResult s1 g)), s')"
    and w': "wf_world s'" and n': "next_id s1 \<le> next_id s'"
    and res: "\<forall>g \<in> set fs. annotations s' g = (if fst (fieldResult s1 g) then [] else [snd (fieldResult s1 g)]) \<and>
                       marked s' g = (\<not> fst (fieldResult s1 g)) \<and> attached s' g \<and>
                       (\<forall>i \<in> set (scope s' g). i \<in> set (scope s1 g) \<or> next_id s1 \<le> i)"
    and fr': "\<forall>Q. Q \<in> set (nodes (root s1)) \<and> (\<forall>h \<in> set fs. set (ids Q) \<inter> set (scope s1 h) = {}) \<longrightarrow>
             Q \<in> set (nodes (root s'))"
    by blast
  from w' have d': "distinct (ids (root s'))" by (simp add: wf_world_def)
  have fres: "fieldResult s1 g = fieldResult s g" if "g \<in> set fs" for g
    by (rule sv(5)[OF that])
  have r1: "validateInputs (f # fs) ok s = Some (ok \<and> (\<forall>g \<in> set (f # fs). fst (fieldResult s g)), s')"
  proof -
    have "(\<forall>g \<in> set fs. fst (fieldResult s1 g)) = (\<forall>g \<in> set fs. fst (fieldResult s g))"
      using fres by simp
    with vi have "validateInputs fs ?ok1 s1 = Some (?ok1 \<and> (\<forall>g \<in> set fs. fst (fieldResult s g)), s')"
      by simp
    then show ?thesis by (cases "fst (fieldResult s f)") (simp_all add: v)
  qed
  have fdis: "set (scope s1 f) \<inter> set (scope s1 h) = {}" if h: "h \<in> set fs" for h
  proof -
    from h nf have hf: "h \<noteq> f" by auto
    have sh: "scope s1 h = scope s h" by (rule sv(3)[OF h])
    have a: "set (scope s h) \<inter> set (scope s f) = {}" by (rule sep(4)[OF h hf])
    have b: "next_id s \<notin> set (scope s h)" using scope_bound[OF Cons.prems(1), of "next_id s" h] by auto
    from sc1 a b show ?thesis unfolding sh by blast
  qed
  from attached_parent[OF at1] obtain P1 where P1: "parentNode f (root s1) = Some P1" by auto
  have "\<forall>h \<in> set fs. set (ids P1) \<inter> set (scope s1 h) = {}"
    using fdis by (simp add: scope_def P1)
  with fr' parentNode_D[OF P1] have "P1 \<in> set (nodes (root s'))" by blast
  from frame_view[OF d1 d' P1 this]
  have fsame: "parentNode f (root s') = parentNode f (root s1)" "getNode f (root s') = getNode f (root s1)"
    by simp_all
  have r2: "annotations s' g = (if fst (fieldResult s g) then [] else [snd (fieldResult s g)]) \<and>
            marked s' g = (\<not> fst (fieldResult s g)) \<and> attached s' g \<and>
            (\<forall>i \<in> set (scope s' g). i \<in> set (scope s g) \<or> next_id s \<le> i)"
    if g: "g \<in> set (f # fs)" for g
  proof (cases "g = f")
    case True
    have "\<forall>i \<in> set (scope s' f). i \<in> set (scope s f) \<or> next_id s \<le> i"
      using sc1 unfolding same_view(3)[OF fsame] by auto
    with same_view(1)[OF fsame] same_view(2)[OF fsame] same_view(4)[OF fsame] an1 mk1 at1 True
    show ?thesis by simp
  next
    case False
    with g have gs: "g \<in> set fs" by simp
    with res have a: "annotations s' g = (if fst (fieldResult s1 g) then [] else [snd (fieldResult s1 g)])"
      "marked s' g = (\<not> fst (fieldResult s1 g))" "attached s' g"
      "\<forall>i \<in> set (scope s' g). i \<in> set (scope s1 g) \<or> next_id s1 \<le> i" by simp_all
    have "\<forall>i \<in> set (scope s' g). i \<in> set (scope s g) \<or> next_id s \<le> i"
    proof
      fix i assume "i \<in> set (scope s' g)"
      with a(4) have "i \<in> set (scope s1 g) \<or> next_id s1 \<le> i" by simp
      with n1 show "i \<in> set (scope s g) \<or> next_id s \<le> i" unfolding sv(3)[OF gs] by auto
    qed
    with a(1,2,3) fres[OF gs] show ?thesis by simp
  qed
  have r3: "Q \<in> set (nodes (root s'))"
    if Q: "Q \<in> set (nodes (root s))" "\<forall>h \<in> set (f # fs). set (ids Q) \<inter> set (scope s h) = {}" for Q
  proof -
    from Q(2) have "set (ids Q) \<inter> set (scope s f) = {}" by simp
    with fr1 Q(1) have q1: "Q \<in> set (nodes (root s1))" by blast
    have "\<forall>h \<in> set fs. set (ids Q) \<inter> set (scope s1 h) = {}"
    proof
      fix h assume h: "h \<in> set fs"
      have "scope s1 h = scope s h" by (rule sv(3)[OF h])
      with Q(2) h show "set (ids Q) \<inter> set (scope s1 h) = {}" by simp
    qed
    with fr' q1 show ?thesis by blast
  qed
  from n1 n' have n2: "next_id s \<le> next_id s'" by simp
  from r1 w' n2 r2 r3 show ?case by blast
qed

lemma matching_iff: "i \<in> matching sel t \<longleftrightarrow> (\<exists>n \<in> set (nodes t). nid n = i \<and> sel (el n))"
  by (force simp: matching_def label_def)

lemma matching_removeNode: "matching sel (removeNode e t) \<subseteq> matching sel t"
  unfolding matching_def using subseq_set[OF labels_removeNode[of e t]] by blast

lemma matching_appendChild:
  assumes "\<not> sel (el c)" "kids c = []"
  shows "matching sel (appendChild p c t) \<subseteq> matching sel t"
proof -
  have "nodes c = [c]" using assms(2) by (cases c) simp
  then have "set (map label (nodes c)) = {label c}" by simp
  with labels_appendChild[of p c t]
  have "set (map label (nodes (appendChild p c t))) \<subseteq> insert (label c) (set (map label (nodes t)))"
    by auto
  moreover have "\<not> sel (snd (label c))" using assms(1) by (simp add: label_def)
  ultimately show ?thesis unfolding matching_def by blast
qed

lemma matching_updateElement:
  assumes "\<And>a. sel (h a) = sel a"
  shows "matching sel (updateElement f h t) = matching sel t"
proof -
  have "(\<exists>n \<in> set (nodes (updateElement f h t)). nid n = i \<and> sel (el n))
      = (\<exists>n \<in> set (nodes t). nid n = i \<and> sel (el n))" for i
    by (simp add: nodes_updateElement el_updateElement assms) metis
  then show ?thesis by (auto simp only: matching_iff)
qed

lemma sel_message_class [simp]:
  "sel_security_message (classList_remove ''error'' a) = sel_security_message a"
  "sel_security_message (classList_add ''error'' a) = sel_security_message a"
  by (auto simp: sel_security_message_def hasClass_def classList_remove_def classList_add_def)

lemma clearFieldError_matching:
  assumes "clearFieldError s f = Some s1"
  shows "matching sel_security_message (root s1) \<subseteq> matching sel_security_message (root s)"
    and "nid (root s1) = nid (root s)"
proof -
  from assms have "\<exists>t1. root s1 = updateElement f (classList_remove ''error'') t1 \<and>
      (t1 = root s \<or> (\<exists>e. t1 = removeNode e (root s)))"
    unfolding clearFieldError_def Let_def
    by (cases "parentNode f (root s)") (auto split: option.splits)
  then obtain t1 where r: "root s1 = updateElement f (classList_remove ''error'') t1"
    and t1: "t1 = root s \<or> (\<exists>e. t1 = removeNode e (root s))" by blast
  have "matching sel_security_message (root s1) = matching sel_security_message t1"
    unfolding r by (rule matching_updateElement) simp
  moreover have "matching sel_security_message t1 \<subseteq> matching sel_security_message (root s)"
    using t1 matching_removeNode by auto
  ultimately show "matching sel_security_message (root s1) \<subseteq> matching sel_security_message (root s)"
    by simp
  show "nid (root s1) = nid (root s)" using t1 by (auto simp: r)
qed

lemma showFieldError_matching:
  assumes "showFieldError s f m = Some s2"
  shows "matching sel_security_message (root s2) \<subseteq> matching sel_security_message (root s)"
    and "nid (root s2) = nid (root s)"
proof -
  from assms obtain s1 p where c: "clearFieldError s f = Some s1"
    and r: "root s2 = updateElement f (classList_add ''error'')
              (appendChild (nid p) (Node (next_id s1) (errorElement m) []) (root s1))"
    by (auto simp: showFieldError_def Let_def errorElement_def split: option.splits)
  have "matching sel_security_message (root s2)
          = matching sel_security_message (appendChild (nid p) (Node (next_id s1) (errorElement m) []) (root s1))"
    unfolding r by (rule matching_updateElement) simp
  also have "\<dots> \<subseteq> matching sel_security_message (root s1)"
    by (rule matching_appendChild)
       (simp_all add: errorElement_def sel_security_message_def hasClass_def createElement_def)
  also have "\<dots> \<subseteq> matching sel_security_message (root s)" by (rule clearFieldError_matching(1)[OF c])
  finally show "matching sel_security_message (root s2) \<subseteq> matching sel_security_message (root s)" .
  show "nid (root s2) = nid (root s)" using clearFieldError_matching(2)[OF c] by (simp add: r)
qed

lemma validateField_matching:
  assumes "validateField s f = Some (b, s')"
  shows "matching sel_security_message (root s') \<subseteq> matching sel_security_message (root s)"
    and "nid (root s') = nid (root s)"
proof -
  from assms have "clearFieldError s f = Some s' \<or> (\<exists>m. showFieldError s f m = Some s')"
    by (auto simp: validateField_def Let_def split: option.splits if_splits)
  then show "matching sel_security_message (root s') \<subseteq> matching sel_security_message (root s)"
    and "nid (root s') = nid (root s)"
    using clearFieldError_matching showFieldError_matching by blast+
qed

lemma validateInputs_matching:
  "validateInputs fs ok s = Some (b, s') \<Longrightarrow>
   matching sel_security_message (root s') \<subseteq> matching sel_security_message (root s) \<and>
   nid (root s') = nid (root s)"
proof (induction fs arbitrary: s ok)
  case Nil
  then show ?case by simp
next
  case (Cons f fs)
  from Cons.prems obtain b1 s1 where v: "validateField s f = Some (b1, s1)"
    and r: "validateInputs fs (if \<not> b1 then False else ok) s1 = Some (b, s')"
    by (auto split: option.splits)
  from Cons.IH[OF r] validateField_matching[OF v] show ?case by auto
qed

lemma clearFieldError_plain: "clearFieldError s f = Some s1 \<Longrightarrow> plain_root s1 = plain_root s"
  by (auto simp: clearFieldError_def plain_root_def Let_def el_updateElement
      split: option.splits if_splits)

lemma showFieldError_plain:
  assumes "showFieldError s f m = Some s2"
  shows "plain_root s2 = plain_root s"
proof -
  from assms obtain s1 where c: "clearFieldError s f = Some s1"
    and "html_class s2 = html_class s1"
    and "sel_security_message (el (root s2)) = sel_security_message (el (root s1))"
    by (auto simp: showFieldError_def Let_def el_updateElement split: option.splits)
  with clearFieldError_plain[OF c] show ?thesis by (simp add: plain_root_def)
qed

lemma validateField_plain: "validateField s f = Some (b, s') \<Longrightarrow> plain_root s' = plain_root s"
  by (auto simp: validateField_def Let_def split: option.splits if_splits
      dest: clearFieldError_plain showFieldError_plain)

lemma validateInputs_plain:
  "validateInputs fs ok s = Some (b, s') \<Longrightarrow> plain_root s' = plain_root s"
proof (induction fs arbitrary: s ok)
  case Nil
  then show ?case by simp
next
  case (Cons f fs)
  from Cons.prems obtain b1 s1 where v: "validateField s f = Some (b1, s1)"
    and r: "validateInputs fs (if \<not> b1 then False else ok) s1 = Some (b, s')"
    by (auto split: option.splits)
  from Cons.IH[OF r] validateField_plain[OF v] show ?case by simp
qed

lemma el_removeAllNodes: "el (removeAllNodes ms t) = el t"
  by (induction ms arbitrary: t) (simp_all add: removeAllNodes_def)

lemma messageShown_plain: "plain_root (messageShown s message ty) = plain_root s"
  by (simp add: plain_root_def messageShown_root el_removeAllNodes)
     (simp add: messageShown_def Let_def)

lemma el_runCallbacks: "el (runCallbacks due t) = el t"
proof (induction due arbitrary: t)
  case Nil
  then show ?case by (simp add: runCallbacks_def)
next
  case (Cons x due)
  have "runCallbacks (x # due) t = runCallbacks due (timerCallback (snd x) t)"
    by (simp add: runCallbacks_def)
  moreover have "el (timerCallback (snd x) t) = el t"
    by (simp add: timerCallback_def split: option.splits)
  ultimately show ?case using Cons.IH[of "timerCallback (snd x) t"] by simp
qed

lemma advance_plain: "plain_root (advance s t) = plain_root s"
  by (simp add: plain_root_def advance_root el_runCallbacks) (simp add: advance_def Let_def)

lemma advance_fields:
  "next_id (advance s t) = next_id s" "clock (advance s t) = max (clock s) t"
  "set (timers (advance s t)) \<subseteq> set (timers s)"
  by (auto simp: advance_def Let_def)

lemma absent_timerCallback: "i \<notin> set (ids t) \<Longrightarrow> timerCallback i t = t"
proof -
  assume a: "i \<notin> set (ids t)"
  have "parentNode i t = None"
  proof (cases "parentNode i t")
    case (Some P)
    from parentNode_D[OF Some] obtain k where "k \<in> set (kids P)" "nid k = i" "P \<in> set (nodes t)" by auto
    then have "k \<in> set (nodes t)" using kid_in_nodes[of P t k] by simp
    with \<open>nid k = i\<close> a show ?thesis by (auto simp: ids_def)
  qed simp
  then show ?thesis by (simp add: timerCallback_def)
qed

lemma file_page_plain: "plain_root (file_page fs)"
  by (simp add: plain_root_def file_page_def createElement_def sel_security_message_def hasClass_def)

lemma removeNode_nodes_conv:
  "n' \<in> set (nodes (removeNode e t)) \<Longrightarrow> \<exists>n \<in> set (nodes t). n' = removeNode e n"
proof (induction t arbitrary: n')
  case (Node i a ks)
  show ?case
  proof (cases "n' = removeNode e (Node i a ks)")
    case True
    then show ?thesis using self_in_nodes by blast
  next
    case False
    with Node.prems obtain k where k: "k \<in> set ks" "n' \<in> set (nodes (removeNode e k))" by auto
    from Node.IH[OF k] obtain n where "n \<in> set (nodes k)" "n' = removeNode e n" by auto
    with k(1) show ?thesis by auto
  qed
qed

lemma removeAllNodes_frame:
  "distinct (ids t) \<Longrightarrow> Q \<in> set (nodes t) \<Longrightarrow>
   (\<forall>m \<in> set ms. \<forall>E \<in> set (nodes t). nid E = nid m \<longrightarrow> set (ids E) \<inter> set (ids Q) = {}) \<Longrightarrow>
   Q \<in> set (nodes (removeAllNodes ms t))"
proof (induction ms arbitrary: t)
  case Nil
  then show ?case by (simp add: removeAllNodes_def)
next
  case (Cons m ms)
  let ?t1 = "removeNode (nid m) t"
  have r: "removeAllNodes (m # ms) t = removeAllNodes ms ?t1" by (simp add: removeAllNodes_def)
  have q1: "Q \<in> set (nodes ?t1)"
  proof (cases "nid m \<in> set (ids t)")
    case False
    then show ?thesis using Cons.prems(2) by (simp add: removeNode_id)
  next
    case True
    then obtain E where E: "E \<in> set (nodes t)" "nid E = nid m" by (auto simp: ids_def)
    with Cons.prems(3) have dj: "set (ids Q) \<inter> set (ids E) = {}" by auto
    have "nid m \<in> set (ids E)" using E(2) nid_in_ids[of E] by simp
    from remove_frame[OF Cons.prems(1) E(1) this Cons.prems(2) dj] show ?thesis .
  qed
  have d1: "distinct (ids ?t1)" by (rule distinct_removeNode[OF Cons.prems(1)])
  have c1: "\<forall>m' \<in> set ms. \<forall>E \<in> set (nodes ?t1). nid E = nid m' \<longrightarrow> set (ids E) \<inter> set (ids Q) = {}"
  proof (intro ballI impI)
    fix m' E' assume m': "m' \<in> set ms" and E': "E' \<in> set (nodes ?t1)" "nid E' = nid m'"
    from removeNode_nodes_conv[OF E'(1)] obtain E where E: "E \<in> set (nodes t)" "E' = removeNode (nid m) E"
      by auto
    then have "nid E = nid m'" using E'(2) by simp
    with Cons.prems(3) m' E(1) have "set (ids E) \<inter> set (ids Q) = {}" by auto
    with set_ids_removeNode[of "nid m" E] E(2) show "set (ids E') \<inter> set (ids Q) = {}" by auto
  qed
  from Cons.IH[OF d1 q1 c1] show ?case unfolding r .
qed

lemma messageShown_frame:
  assumes d: "distinct (ids (root s))" and Q: "Q \<in> set (nodes (root s))"
    and nr: "nid (root s) \<notin> set (ids Q)"
    and dj: "\<forall>m \<in> set (querySelectorAll sel_security_message (root s)). set (ids m) \<inter> set (ids Q) = {}"
  shows "Q \<in> set (nodes (root (messageShown s message ty)))"
proof -
  let ?ms = "querySelectorAll sel_security_message (root s)"
  have "\<forall>m \<in> set ?ms. \<forall>E \<in> set (nodes (root s)). nid E = nid m \<longrightarrow> set (ids E) \<inter> set (ids Q) = {}"
  proof (intro ballI impI)
    fix m E assume m: "m \<in> set ?ms" and E: "E \<in> set (nodes (root s))" "nid E = nid m"
    from m have "m \<in> set (descendants (root s))" by (simp add: querySelectorAll_def)
    then have "m \<in> set (nodes (root s))" by (simp add: nodes_eq)
    from node_unique[OF d E(1) this E(2)] dj m show "set (ids E) \<inter> set (ids Q) = {}" by simp
  qed
  from removeAllNodes_frame[OF d Q this] have q1: "Q \<in> set (nodes (removeAllNodes ?ms (root s)))" .
  have d1: "distinct (ids (removeAllNodes ?ms (root s)))" by (rule distinct_removeAllNodes[OF d])
  from append_frame[OF d1 q1 nr] show ?thesis by (simp add: messageShown_root)
qed

lemma distinct_formFields: "wf_world s \<Longrightarrow> distinct (formFields s form)"
proof (cases "getNode form (root s)")
  case None
  then show ?thesis by (simp add: formFields_def)
next
  case (Some fm)
  assume "wf_world s"
  then have d: "distinct (ids (root s))" by (simp add: wf_world_def)
  from getNode_D[OF Some] have "fm \<in> set (nodes (root s))" by simp
  from distinct_sub[OF d this] have "distinct (map nid (descendants fm))"
    by (simp add: ids_def nodes_eq)
  then have "distinct (map nid (filter (\<lambda>d. sel_input_textarea (el d)) (descendants fm)))"
    by (rule distinct_map_filter)
  then show ?thesis by (simp add: formFields_def Some querySelectorAll_def)
qed

lemma validateForm_eq:
  "getNode form (root s) = Some fm \<Longrightarrow> validateForm s form = validateInputs (formFields s form) True s"
  by (simp add: validateForm_def formFields_def)

lemma example_results:
  "fieldResult example_page 3 = (False, ''This field is required'')"
  "fieldResult example_page 5 = (False, ''Please enter a valid email address'')"
proof -
  have g3: "getNode 3 (root example_page) = Some (Node 3 (inputElement ''text'' [] True) [])"
    by code_simp
  have g5: "getNode 5 (root example_page) = Some (Node 5 (inputElement ''email'' ''bad'' False) [])"
    by code_simp
  have t: "trim [] = []" "trim ''bad'' = ''bad''" by code_simp+
  show "fieldResult example_page 3 = (False, ''This field is required'')"
    by (simp add: fieldResult_def g3 FieldValidator_spec_def inputElement_def createElement_def t)
  show "fieldResult example_page 5 = (False, ''Please enter a valid email address'')"
    by (simp add: fieldResult_def g5 FieldValidator_spec_def inputElement_def createElement_def t
        not_pattern_bad)
qed

subsection \<open>The submit listener and the parents of the fields\<close>

text \<open>
  An annotation is attached to the parent of its field and looked up there, so fields below
  one element share one place for it. The two fields of \<open>shared_parent_page\<close> are children of
  one element. The submit is prevented and the notification is emitted, but the annotation
  of the failing first field is removed again when the second field, which passes, is
  validated: no annotation is left.
\<close>

lemma submitListener_shared_parent_example:
  "formFields shared_parent_page 1 = [2, 3] \<and>
   map_option fst (validateField shared_parent_page 2) = Some False \<and>
   map_option fst (submitListener shared_parent_page 1) = Some True \<and>
   map_option (\<lambda>r. notifications (snd r)) (submitListener shared_parent_page 1)
     = Some [''Please fix form errors before submitting.''] \<and>
   map_option (\<lambda>r. annotations (snd r) 2) (submitListener shared_parent_page 1) = Some [] \<and>
   map_option (\<lambda>r. querySelectorAll sel_field_error (root (snd r))) (submitListener shared_parent_page 1)
     = Some []"
  by code_simp

text \<open>
  Where no two fields of the form have overlapping parent elements (each parent holding at
  most one annotation before, no notification lying inside or around one, and \<open>body\<close> being
  no notification itself), the listener
  does all that is asked of it. It validates every input and textarea of the form, in
  document order. The submit is prevented exactly when some field fails, and then the error
  notification is emitted and is the only one displayed; when all fields pass the default
  action is left alone. Each failing field ends marked, with exactly its message in its
  parent, and each passing field unmarked, with none. A form to which \<open>enhanceForm\<close> has
  appended the token field is not of this kind once it has another field: the parent of the
  token field is the form.
\<close>

lemma submitListener_separate_fields:
  assumes "wf_world s" and "getNode form (root s) = Some fm"
    and "separate_fields s (formFields s form)" and "notifications_apart s (formFields s form)"
    and "plain_root s"
  shows "\<exists>ok s1 s'.
           validateForm s form = Some (ok, s1) \<and>
           ok = (\<forall>f \<in> set (formFields s form). fst (fieldResult s f)) \<and>
           submitListener s form = Some (\<not> ok, s') \<and>
           s' = (if ok then s1 else messageShown s1 ''Please fix form errors before submitting.'' Error) \<and>
           (\<not> ok \<longrightarrow> notifications s' = [''Please fix form errors before submitting.'']) \<and>
           (\<forall>f \<in> set (formFields s form).
              annotations s' f = (if fst (fieldResult s f) then [] else [snd (fieldResult s f)]) \<and>
              marked s' f = (\<not> fst (fieldResult s f)))"
proof -
  let ?fs = "formFields s form"
  let ?ok = "\<forall>f \<in> set ?fs. fst (fieldResult s f)"
  let ?msg = "''Please fix form errors before submitting.''"
  from validateInputs_ok[OF assms(1) distinct_formFields[OF assms(1)] assms(3), of True]
  obtain s1 where vi: "validateInputs ?fs True s = Some (True \<and> ?ok, s1)" and w1: "wf_world s1"
    and n1: "next_id s \<le> next_id s1"
    and res: "\<forall>f \<in> set ?fs. annotations s1 f = (if fst (fieldResult s f) then [] else [snd (fieldResult s f)]) \<and>
                       marked s1 f = (\<not> fst (fieldResult s f)) \<and> attached s1 f \<and>
                       (\<forall>i \<in> set (scope s1 f). i \<in> set (scope s f) \<or> next_id s \<le> i)"
    and fr: "\<forall>Q. Q \<in> set (nodes (root s)) \<and> (\<forall>f \<in> set ?fs. set (ids Q) \<inter> set (scope s f) = {}) \<longrightarrow>
             Q \<in> set (nodes (root s1))"
    by blast
  have vf: "validateForm s form = Some (?ok, s1)" using vi by (simp add: validateForm_eq[OF assms(2)])
  define s' where "s' = (if ?ok then s1 else messageShown s1 ?msg Error)"
  have p1: "plain_root s1" using validateInputs_plain[OF vi] assms(5) by simp
  have sl: "submitListener s form = Some (\<not> ?ok, s')"
    by (simp add: submitListener_def vf s'_def showSecurityMessage_conv p1)
  have nt: "\<not> ?ok \<longrightarrow> notifications s' = [?msg]"
    by (simp add: s'_def messageShown_notifications)
  from assms(1) w1 have d: "distinct (ids (root s))" and d1: "distinct (ids (root s1))"
    and b: "\<forall>i \<in> set (ids (root s)). i < next_id s"
    by (simp_all add: wf_world_def)
  have fin: "annotations s' f = (if fst (fieldResult s f) then [] else [snd (fieldResult s f)]) \<and>
             marked s' f = (\<not> fst (fieldResult s f))" if f: "f \<in> set ?fs" for f
  proof (cases ?ok)
    case True
    with res f show ?thesis by (simp add: s'_def)
  next
    case False
    let ?s2 = "messageShown s1 ?msg Error"
    from res f have rf: "annotations s1 f = (if fst (fieldResult s f) then [] else [snd (fieldResult s f)])"
      "marked s1 f = (\<not> fst (fieldResult s f))" "attached s1 f"
      "\<forall>i \<in> set (scope s1 f). i \<in> set (scope s f) \<or> next_id s \<le> i" by simp_all
    from attached_parent[OF rf(3)] obtain P1 where P1: "parentNode f (root s1) = Some P1" by auto
    then have sc1: "scope s1 f = ids P1" by (simp add: scope_def)
    from parentNode_D[OF P1] have P1n: "P1 \<in> set (nodes (root s1))" by simp
    from assms(4) f have ap: "nid (root s) \<notin> set (scope s f)"
      "\<forall>m \<in> set (querySelectorAll sel_security_message (root s)). set (ids m) \<inter> set (scope s f) = {}"
      by (simp_all add: notifications_apart_def)
    have rid: "nid (root s1) = nid (root s)" using validateInputs_matching[OF vi] by simp
    have small: "i < next_id s" if "i \<in> set (ids n)" "n \<in> set (nodes (root s))" for i n
      using ids_sub[OF that(2)] that(1) b by auto
    have nr: "nid (root s1) \<notin> set (ids P1)"
    proof
      assume "nid (root s1) \<in> set (ids P1)"
      with rf(4) sc1 rid have "nid (root s) \<in> set (scope s f) \<or> next_id s \<le> nid (root s)" by simp
      with ap(1) small[OF nid_in_ids self_in_nodes] show False by auto
    qed
    have dj: "\<forall>m1 \<in> set (querySelectorAll sel_security_message (root s1)). set (ids m1) \<inter> set (ids P1) = {}"
    proof
      fix m1 assume m1: "m1 \<in> set (querySelectorAll sel_security_message (root s1))"
      then have m1d: "m1 \<in> set (descendants (root s1))" and m1s: "sel_security_message (el m1)"
        by (simp_all add: querySelectorAll_def)
      from m1d have m1n: "m1 \<in> set (nodes (root s1))" by (simp add: nodes_eq)
      with m1s have "nid m1 \<in> matching sel_security_message (root s1)" by (auto simp: matching_iff)
      with validateInputs_matching[OF vi] have "nid m1 \<in> matching sel_security_message (root s)" by auto
      then obtain m where m: "m \<in> set (nodes (root s))" "nid m = nid m1" "sel_security_message (el m)"
        by (auto simp: matching_iff)
      have "m \<noteq> root s"
      proof
        assume "m = root s"
        with m(2) rid have "nid (root s1) = nid m1" by simp
        with m1d self_not_below[OF d1] show False by (metis imageI)
      qed
      with m(1) have "m \<in> set (descendants (root s))" by (simp add: nodes_eq)
      with m(3) have mq: "m \<in> set (querySelectorAll sel_security_message (root s))"
        by (simp add: querySelectorAll_def)
      have "\<forall>g \<in> set ?fs. set (ids m) \<inter> set (scope s g) = {}"
        using assms(4) mq by (simp add: notifications_apart_def)
      with fr m(1) have "m \<in> set (nodes (root s1))" by blast
      from node_unique[OF d1 this m1n m(2)] have mm: "m = m1" .
      show "set (ids m1) \<inter> set (ids P1) = {}"
      proof (rule ccontr)
        assume "set (ids m1) \<inter> set (ids P1) \<noteq> {}"
        then obtain i where i: "i \<in> set (ids m1)" "i \<in> set (ids P1)" by auto
        from i(2) rf(4) sc1 have "i \<in> set (scope s f) \<or> next_id s \<le> i" by simp
        moreover have "i < next_id s" using small[OF _ m(1)] i(1) mm by simp
        moreover have "i \<notin> set (scope s f)" using ap(2) mq i(1) mm by auto
        ultimately show False by auto
      qed
    qed
    from messageShown_frame[OF d1 P1n nr dj, of ?msg Error]
    have P2: "P1 \<in> set (nodes (root ?s2))" .
    have d2: "distinct (ids (root ?s2))" using messageShown_wf[OF w1, of ?msg Error]
      by (simp add: wf_world_def)
    from frame_view[OF d1 d2 P1 P2]
    have sm: "parentNode f (root ?s2) = parentNode f (root s1)" "getNode f (root ?s2) = getNode f (root s1)"
      by simp_all
    from same_view(1)[OF sm] same_view(2)[OF sm] rf(1,2) False show ?thesis by (simp add: s'_def)
  qed
  from vf sl nt fin show ?thesis unfolding s'_def by blast
qed

lemma submitListener_separate_fields_example:
  "wf_world example_page \<and> getNode 1 (root example_page) = Some (hd (kids (root example_page))) \<and>
   formFields example_page 1 = [3, 5] \<and> separate_fields example_page [3, 5] \<and>
   notifications_apart example_page [3, 5] \<and> plain_root example_page \<and>
   (\<exists>s'. submitListener example_page 1 = Some (True, s') \<and>
      notifications s' = [''Please fix form errors before submitting.''] \<and>
      annotations s' 3 = [''This field is required''] \<and> marked s' 3 \<and>
      annotations s' 5 = [''Please enter a valid email address''] \<and> marked s' 5)"
proof -
  have h1: "wf_world example_page" by code_simp
  have h2: "getNode 1 (root example_page) = Some (hd (kids (root example_page)))" by code_simp
  have ff: "formFields example_page 1 = [3, 5]" by code_simp
  have h3: "separate_fields example_page [3, 5]" by code_simp
  have h4: "notifications_apart example_page [3, 5]" by code_simp
  have h5: "plain_root example_page" by code_simp
  from submitListener_separate_fields[OF h1 h2 h3[folded ff] h4[folded ff] h5]
  obtain ok s1 s' where ok: "ok = (\<forall>f \<in> set (formFields example_page 1). fst (fieldResult example_page f))"
    and sl: "submitListener example_page 1 = Some (\<not> ok, s')"
    and nt: "\<not> ok \<longrightarrow> notifications s' = [''Please fix form errors before submitting.'']"
    and fin: "\<forall>f \<in> set (formFields example_page 1).
              annotations s' f = (if fst (fieldResult example_page f) then [] else [snd (fieldResult example_page f)]) \<and>
              marked s' f = (\<not> fst (fieldResult example_page f))"
    by blast
  from ok have nok: "\<not> ok" unfolding ff by (simp add: example_results)
  from fin have "annotations s' 3 = [''This field is required''] \<and> marked s' 3 \<and>
      annotations s' 5 = [''Please enter a valid email address''] \<and> marked s' 5"
    unfolding ff by (simp add: example_results)
  with sl nt nok have "\<exists>s'. submitListener example_page 1 = Some (True, s') \<and>
      notifications s' = [''Please fix form errors before submitting.''] \<and>
      annotations s' 3 = [''This field is required''] \<and> marked s' 3 \<and>
      annotations s' 5 = [''Please enter a valid email address''] \<and> marked s' 5"
    by auto
  with h1 h2 ff h3 h4 h5 show ?thesis by blast
qed

subsection \<open>showFieldError on a field whose parent holds one annotation\<close>

text \<open>
  Where the parent of the field holds at most one annotation, its children and all below them
  counted, showing an error twice in a row leaves exactly one annotation there, with the
  second message, and the field marked; after the first call there is exactly one as well.
\<close>

lemma showFieldError_twice_alone:
  assumes "wf_world s" and "attached s f" and "length (annotations s f) \<le> 1"
  shows "\<exists>s1 s2. showFieldError s f m1 = Some s1 \<and> annotations s1 f = [m1] \<and> marked s1 f \<and>
           showFieldError s1 f m2 = Some s2 \<and> annotations s2 f = [m2] \<and> marked s2 f"
proof -
  from showFieldError_effect[OF assms(1,2), of m1]
  obtain s1 L1 where s1: "showFieldError s f m1 = Some s1" "wf_world s1" "attached s1 f"
    "subseq L1 (drop 1 (annotations s f))" "annotations s1 f = L1 @ [m1]" "marked s1 f" by blast
  from assms(3) have "drop 1 (annotations s f) = []" by simp
  with s1(4) have "L1 = []" by simp
  with s1(5) have a1: "annotations s1 f = [m1]" by simp
  from showFieldError_effect[OF s1(2,3), of m2]
  obtain s2 L2 where s2: "showFieldError s1 f m2 = Some s2"
    "subseq L2 (drop 1 (annotations s1 f))" "annotations s2 f = L2 @ [m2]" "marked s2 f" by blast
  from s2(2) a1 have "L2 = []" by simp
  with s2(3) have "annotations s2 f = [m2]" by simp
  with s1(1,6) a1 s2(1,4) show ?thesis by blast
qed

lemma showFieldError_twice_alone_example:
  "wf_world example_page \<and> attached example_page 3 \<and> length (annotations example_page 3) \<le> 1 \<and>
   (\<exists>s1 s2. showFieldError example_page 3 ''first'' = Some s1 \<and> annotations s1 3 = [''first''] \<and>
      marked s1 3 \<and> showFieldError s1 3 ''second'' = Some s2 \<and> annotations s2 3 = [''second''] \<and>
      marked s2 3)"
proof -
  have h1: "wf_world example_page" by code_simp
  have h2: "attached example_page 3" by code_simp
  have h3: "length (annotations example_page 3) \<le> 1" by code_simp
  from showFieldError_twice_alone[OF h1 h2 h3, of "''first''" "''second''"] h1 h2 h3 show ?thesis by simp
qed

section \<open>The claims\<close>

text \<open>
  C1 fails on the code. On a submit the listener is to validate every field of the form and,
  if any fails, to prevent the submission, reflect the error of every failing field and emit
  the error notification. The form here is the one of the specification's end-to-end
  example, a required text field that is empty and an email field holding \<open>bad\<close>, each in
  an element of its own; \<open>enhanceFormSecurity\<close> has processed it and appended the hidden token
  field to the form. The listener validates the three fields in document order. After the
  first two each has its message displayed. The token field comes last and passes, and
  \<open>clearFieldError\<close> looks for an annotation below the parent of the token field, which is
  the form: it removes the first annotation of the form. So the submit is prevented, the
  notification is emitted and both failing fields are marked, but the message of the required
  field is displayed no more.
\<close>

theorem submitListener_token_field_example:
  "enhanceFormSecurity example_page = Some enhanced_example_page \<and>
   formFields enhanced_example_page 1 = [3, 5, 6] \<and>
   map_option fst (validateField enhanced_example_page 3) = Some False \<and>
   map_option fst (validateField enhanced_example_page 5) = Some False \<and>
   map_option (\<lambda>r. annotations (snd r) 3) (validateInputs [3, 5] True enhanced_example_page)
     = Some [''This field is required''] \<and>
   map_option fst (submitListener enhanced_example_page 1) = Some True \<and>
   map_option (\<lambda>r. notifications (snd r)) (submitListener enhanced_example_page 1)
     = Some [''Please fix form errors before submitting.''] \<and>
   map_option (\<lambda>r. annotations (snd r) 3) (submitListener enhanced_example_page 1) = Some [] \<and>
   map_option (\<lambda>r. marked (snd r) 3) (submitListener enhanced_example_page 1) = Some True \<and>
   map_option (\<lambda>r. annotations (snd r) 5) (submitListener enhanced_example_page 1)
     = Some [''Please enter a valid email address''] \<and>
   map_option (\<lambda>r. marked (snd r) 5) (submitListener enhanced_example_page 1) = Some True"
  by code_simp

text \<open>
  C2. With no file selected \<open>validateFileUpload\<close> returns true. With a file it returns true
  iff the file's type is in the allow-list and its size is at most 5,242,880. A file of a
  type outside the list is rejected with the type message whatever its size: the type message
  is the annotation the rejection appends, and whatever else is displayed for the input
  afterwards was displayed before, so a file that breaks both rules adds no size message. A
  file of an allowed type that is too large is rejected with the size message in the same
  way. The input is a file input in the document, and neither \<open>body\<close> nor the document
  element is a notification.
\<close>

theorem validateFileUpload_decision:
  assumes "wf_world s" and "attached s input" and "getNode input (root s) = Some n"
    and "el_tag (el n) = ''input''" and "el_type (el n) = ''file''" and "plain_root s"
  shows "(el_files (el n) = [] \<longrightarrow> validateFileUpload s input = Some (True, s)) \<and>
         (\<forall>file rest. el_files (el n) = file # rest \<longrightarrow>
            (\<exists>s'. validateFileUpload s input =
                    Some (file_type file \<in> spec_allowed_types \<and> file_size file \<le> 5242880, s') \<and>
                  (file_type file \<notin> spec_allowed_types \<longrightarrow>
                     (\<exists>L. subseq L (drop 1 (annotations s input)) \<and>
                          annotations s' input =
                            L @ [''Invalid file type. Allowed: JPG, PNG, PDF, DOC (max 5MB)''])) \<and>
                  (file_type file \<in> spec_allowed_types \<and> 5242880 < file_size file \<longrightarrow>
                     (\<exists>L. subseq L (drop 1 (annotations s input)) \<and>
                          annotations s' input = L @ [''File too large. Maximum size is 5MB'']))))"
proof (intro conjI allI impI)
  assume "el_files (el n) = []"
  then show "validateFileUpload s input = Some (True, s)"
    by (simp add: validateFileUpload_def assms(3,4,5))
next
  fix fl rest assume fs: "el_files (el n) = fl # rest"
  let ?res = "file_type fl \<in> spec_allowed_types \<and> file_size fl \<le> 5242880"
  let ?tm = "''Invalid file type. Allowed: JPG, PNG, PDF, DOC (max 5MB)''"
  let ?sm = "''File too large. Maximum size is 5MB''"
  consider (ty) "file_type fl \<notin> spec_allowed_types"
    | (sz) "file_type fl \<in> spec_allowed_types" "5242880 < file_size fl"
    | (ok) "file_type fl \<in> spec_allowed_types" "file_size fl \<le> 5242880" by linarith
  then show "\<exists>s'. validateFileUpload s input = Some (?res, s') \<and>
                  (file_type fl \<notin> spec_allowed_types \<longrightarrow>
                     (\<exists>L. subseq L (drop 1 (annotations s input)) \<and> annotations s' input = L @ [?tm])) \<and>
                  (file_type fl \<in> spec_allowed_types \<and> 5242880 < file_size fl \<longrightarrow>
                     (\<exists>L. subseq L (drop 1 (annotations s input)) \<and> annotations s' input = L @ [?sm]))"
  proof cases
    case ty
    from validateFileUpload_rejects[OF assms(1,2,3,5), of ?tm]
    obtain s1 where s1: "showFieldError s input ?tm = Some s1"
      "\<exists>L. subseq L (drop 1 (annotations s input)) \<and>
           annotations (s1\<lparr>root := updateElement input resetValue (root s1)\<rparr>) input = L @ [?tm]"
      by blast
    have "validateFileUpload s input = Some (False, s1\<lparr>root := updateElement input resetValue (root s1)\<rparr>)"
      using ty s1(1) by (simp add: validateFileUpload_def assms(3,4,5) fs set_allowedTypes maxSizeReadable_def)
    with ty s1(2) show ?thesis by simp
  next
    case sz
    from validateFileUpload_rejects[OF assms(1,2,3,5), of ?sm]
    obtain s1 where s1: "showFieldError s input ?sm = Some s1"
      "\<exists>L. subseq L (drop 1 (annotations s input)) \<and>
           annotations (s1\<lparr>root := updateElement input resetValue (root s1)\<rparr>) input = L @ [?sm]"
      by blast
    have "validateFileUpload s input = Some (False, s1\<lparr>root := updateElement input resetValue (root s1)\<rparr>)"
      using sz s1(1)
      by (simp add: validateFileUpload_def assms(3,4,5) fs set_allowedTypes maxSizeReadable_def maxSize_value)
    with sz s1(2) show ?thesis by simp
  next
    case ok
    from clearFieldError_effect[OF assms(1,2)] obtain s1 where s1: "clearFieldError s input = Some s1"
      by blast
    let ?s2 = "messageShown s1 ''File looks good!'' Success"
    have p1: "plain_root s1" using clearFieldError_plain[OF s1] assms(6) by simp
    have v: "validateFileUpload s input = Some (True, ?s2)"
      using ok s1 p1
      by (simp add: validateFileUpload_def assms(3,4,5) fs set_allowedTypes maxSize_value
          showSecurityMessage_conv)
    with ok show ?thesis by simp
  qed
qed

theorem validateFileUpload_decision_witness:
  "wf_world (file_page [gif_6MiB]) \<and> attached (file_page [gif_6MiB]) 3 \<and>
   getNode 3 (root (file_page [gif_6MiB])) = Some (Node 3 (file_input [gif_6MiB]) []) \<and>
   el_tag (file_input [gif_6MiB]) = ''input'' \<and> el_type (file_input [gif_6MiB]) = ''file'' \<and>
   plain_root (file_page [gif_6MiB]) \<and> el_files (file_input [gif_6MiB]) = [gif_6MiB] \<and>
   file_type gif_6MiB \<notin> spec_allowed_types \<and> 5242880 < file_size gif_6MiB \<and>
   annotations (file_page [gif_6MiB]) 3 = [''File too large. Maximum size is 5MB''] \<and>
   (\<exists>s'. validateFileUpload (file_page [gif_6MiB]) 3 = Some (False, s') \<and>
      annotations s' 3 = [''Invalid file type. Allowed: JPG, PNG, PDF, DOC (max 5MB)''])"
proof -
  have h1: "wf_world (file_page [gif_6MiB])" by (rule file_page_wf)
  have h2: "attached (file_page [gif_6MiB]) 3" by (rule file_page_attached)
  have h3: "getNode 3 (root (file_page [gif_6MiB])) = Some (Node 3 (file_input [gif_6MiB]) [])"
    by (rule file_page_node)
  have h4: "el_tag (el (Node 3 (file_input [gif_6MiB]) [])) = ''input''" by (simp add: file_input_props)
  have h5: "el_type (el (Node 3 (file_input [gif_6MiB]) [])) = ''file''" by (simp add: file_input_props)
  have h6: "el_files (el (Node 3 (file_input [gif_6MiB]) [])) = [gif_6MiB]"
    by (simp add: file_input_props)
  have h7: "file_type gif_6MiB \<notin> spec_allowed_types" by (simp add: gif_6MiB_def spec_allowed_types_def)
  have h8: "5242880 < file_size gif_6MiB" by (simp add: gif_6MiB_def)
  have h9: "plain_root (file_page [gif_6MiB])" by (rule file_page_plain)
  have a0: "annotations (file_page [gif_6MiB]) 3 = [''File too large. Maximum size is 5MB'']"
    by (rule file_page_annotations)
  from validateFileUpload_decision[OF h1 h2 h3 h4 h5 h9, THEN conjunct2, rule_format, OF h6]
  obtain s' where v: "validateFileUpload (file_page [gif_6MiB]) 3 =
        Some (file_type gif_6MiB \<in> spec_allowed_types \<and> file_size gif_6MiB \<le> 5242880, s')"
    and "file_type gif_6MiB \<notin> spec_allowed_types \<longrightarrow>
          (\<exists>L. subseq L (drop 1 (annotations (file_page [gif_6MiB]) 3)) \<and>
               annotations s' 3 = L @ [''Invalid file type. Allowed: JPG, PNG, PDF, DOC (max 5MB)''])"
    by blast
  with h7 obtain L where "subseq L (drop 1 (annotations (file_page [gif_6MiB]) 3))"
    and a: "annotations s' 3 = L @ [''Invalid file type. Allowed: JPG, PNG, PDF, DOC (max 5MB)'']"
    by blast
  then have "L = []" by (simp add: a0)
  with a v h7 have "\<exists>s'. validateFileUpload (file_page [gif_6MiB]) 3 = Some (False, s') \<and>
      annotations s' 3 = [''Invalid file type. Allowed: JPG, PNG, PDF, DOC (max 5MB)'']"
    by auto
  with h1 h2 h3 h4[simplified] h5[simplified] h6[simplified] h7 h8 h9 a0 show ?thesis by blast
qed

text \<open>
  C3. \<open>validateField\<close> decides as the rules of the specification do, the first failing
  rule winning (\<open>FieldValidator_spec\<close>: the email rule, then the required rule, else accept).
  On a rejection the rule's message is the annotation it appends and the field is marked; on
  an acceptance it appends none and the field is unmarked.
\<close>

theorem validateField_precedence:
  assumes "wf_world s" and "attached s f" and "getNode f (root s) = Some n"
  shows "\<exists>s'. validateField s f = Some (fst (FieldValidator_spec (el n)), s') \<and>
           (if fst (FieldValidator_spec (el n))
            then subseq (annotations s' f) (drop 1 (annotations s f)) \<and> \<not> marked s' f
            else (\<exists>L. subseq L (drop 1 (annotations s f)) \<and>
                      annotations s' f = L @ [snd (FieldValidator_spec (el n))]) \<and> marked s' f)"
proof -
  from validateField_effect[OF assms]
  obtain s' L where "validateField s f = Some (fst (FieldValidator_spec (el n)), s')"
    "subseq L (drop 1 (annotations s f))"
    "annotations s' f = (if fst (FieldValidator_spec (el n)) then L else L @ [snd (FieldValidator_spec (el n))])"
    "marked s' f = (\<not> fst (FieldValidator_spec (el n)))" by blast
  then show ?thesis by (cases "fst (FieldValidator_spec (el n))") auto
qed

theorem validateField_precedence_witness:
  "wf_world example_page \<and> attached example_page 5 \<and>
   getNode 5 (root example_page) = Some (Node 5 (inputElement ''email'' ''bad'' False) []) \<and>
   (\<exists>s'. validateField example_page 5 = Some (False, s') \<and>
      annotations s' 5 = [''Please enter a valid email address''] \<and> marked s' 5)"
proof -
  have h1: "wf_world example_page" by code_simp
  have h2: "attached example_page 5" by code_simp
  have h3: "getNode 5 (root example_page) = Some (Node 5 (inputElement ''email'' ''bad'' False) [])"
    by code_simp
  have t: "trim ''bad'' = ''bad''" by code_simp
  have r: "FieldValidator_spec (inputElement ''email'' ''bad'' False)
             = (False, ''Please enter a valid email address'')"
    by (simp add: FieldValidator_spec_def inputElement_def t not_pattern_bad)
  have a: "annotations example_page 5 = []" by code_simp
  from validateField_precedence[OF h1 h2 h3] h1 h2 h3 show ?thesis by (auto simp: r a)
qed

text \<open>
  C4 as stated fails: a required email field whose value is one space is rejected, with the
  message of the required rule.
\<close>

theorem email_whitespace_counterexample:
  "getNode 3 (root required_email_page) = Some (Node 3 (inputElement ''email'' '' '' True) []) \<and>
   trim '' '' = [] \<and>
   map_option fst (validateField required_email_page 3) = Some False \<and>
   map_option (\<lambda>r. annotations (snd r) 3) (validateField required_email_page 3)
     = Some [''This field is required'']"
  by code_simp

text \<open>
  C4, amended. An email field is accepted iff its trimmed value is empty and the field is not
  required, or its trimmed value matches the email pattern. When it is rejected the annotation
  appended is \<open>This field is required\<close> if the trimmed value is empty and the email message
  otherwise.
\<close>

theorem validateField_email:
  assumes "wf_world s" and "attached s f" and "getNode f (root s) = Some n"
    and "el_type (el n) = ''email''"
  shows "\<exists>s'. validateField s f =
           Some ((trim (el_value (el n)) = [] \<and> \<not> el_required (el n)) \<or>
                 spec_email_pattern (trim (el_value (el n))), s') \<and>
           (if (trim (el_value (el n)) = [] \<and> \<not> el_required (el n)) \<or>
               spec_email_pattern (trim (el_value (el n)))
            then subseq (annotations s' f) (drop 1 (annotations s f))
            else (\<exists>L. subseq L (drop 1 (annotations s f)) \<and>
                      annotations s' f =
                        L @ [if trim (el_value (el n)) = [] then ''This field is required''
                             else ''Please enter a valid email address'']))"
proof -
  let ?v = "trim (el_value (el n))"
  let ?ok = "(?v = [] \<and> \<not> el_required (el n)) \<or> spec_email_pattern ?v"
  from validateField_effect[OF assms(1-3)]
  obtain s' L where v: "validateField s f = Some (fst (FieldValidator_spec (el n)), s')"
    and L: "subseq L (drop 1 (annotations s f))"
    and a: "annotations s' f = (if fst (FieldValidator_spec (el n)) then L
                                else L @ [snd (FieldValidator_spec (el n))])"
    by blast
  have np: "\<not> spec_email_pattern []" by (simp add: spec_email_pattern_def)
  have r: "fst (FieldValidator_spec (el n)) = ?ok"
    using assms(4) np by (auto simp: FieldValidator_spec_def Let_def)
  have m: "\<not> ?ok \<Longrightarrow> snd (FieldValidator_spec (el n)) =
             (if ?v = [] then ''This field is required'' else ''Please enter a valid email address'')"
    using assms(4) np by (auto simp: FieldValidator_spec_def Let_def)
  show ?thesis
  proof (cases ?ok)
    case True
    with v L a r show ?thesis by auto
  next
    case False
    with v L a r m[OF False] show ?thesis by auto
  qed
qed

theorem validateField_email_witness:
  "wf_world required_email_page \<and> attached required_email_page 3 \<and>
   getNode 3 (root required_email_page) = Some (Node 3 (inputElement ''email'' '' '' True) []) \<and>
   el_type (inputElement ''email'' '' '' True) = ''email'' \<and>
   (\<exists>s'. validateField required_email_page 3 = Some (False, s') \<and>
      annotations s' 3 = [''This field is required''])"
proof -
  have h1: "wf_world required_email_page" by code_simp
  have h2: "attached required_email_page 3" by code_simp
  have h3: "getNode 3 (root required_email_page) = Some (Node 3 (inputElement ''email'' '' '' True) [])"
    by code_simp
  have h4: "el_type (el (Node 3 (inputElement ''email'' '' '' True) [])) = ''email''" by code_simp
  have t: "trim '' '' = []" by code_simp
  have n: "\<not> spec_email_pattern []" by (simp add: spec_email_pattern_def)
  have a0: "annotations required_email_page 3 = []" by code_simp
  from validateField_email[OF h1 h2 h3 h4] h1 h2 h3 h4 show ?thesis
    by (auto simp: inputElement_def t n a0)
qed

text \<open>
  C5 as stated fails: validating the empty required field of \<open>example_page\<close> adds an
  error annotation and marks the field.
\<close>

theorem validateField_mutates_counterexample:
  "annotations example_page 3 = [] \<and> \<not> marked example_page 3 \<and>
   map_option (\<lambda>r. annotations (snd r) 3) (validateField example_page 3)
     = Some [''This field is required''] \<and>
   map_option (\<lambda>r. marked (snd r) 3) (validateField example_page 3) = Some True"
  by code_simp

text \<open>
  C5, amended. \<open>validateField\<close> reflects its own result: it ends as \<open>clearFieldError\<close> when
  it accepts and as \<open>showFieldError\<close> when it rejects, so the field is marked exactly when it
  is rejected; of the field's properties only the class list changes.
\<close>

theorem validateField_reflects:
  assumes "wf_world s" and "attached s f" and "getNode f (root s) = Some n"
  shows "\<exists>b s' n'. validateField s f = Some (b, s') \<and>
           (if b then clearFieldError s f = Some s' else (\<exists>m. showFieldError s f m = Some s')) \<and>
           marked s' f = (\<not> b) \<and>
           getNode f (root s') = Some n' \<and> el n' = (el n)\<lparr>el_class := el_class (el n')\<rparr>"
proof -
  from validateField_effect[OF assms]
  obtain s' n' where v: "validateField s f = Some (fst (FieldValidator_spec (el n)), s')"
    and m: "marked s' f = (\<not> fst (FieldValidator_spec (el n)))"
    and g: "getNode f (root s') = Some n'"
    and e: "el n' = (if fst (FieldValidator_spec (el n)) then classList_remove ''error'' (el n)
                          else classList_add ''error'' (classList_remove ''error'' (el n)))"
    by blast
  have c: "if fst (FieldValidator_spec (el n)) then clearFieldError s f = Some s'
           else (\<exists>m. showFieldError s f m = Some s')"
    using v by (auto simp: validateField_def assms(3) Let_def split: if_splits)
  have "el n' = (el n)\<lparr>el_class := el_class (el n')\<rparr>"
    using e by (auto simp: classList_remove_def classList_add_def)
  with v m g c show ?thesis by blast
qed

theorem validateField_reflects_witness:
  "wf_world example_page \<and> attached example_page 3 \<and>
   getNode 3 (root example_page) = Some (Node 3 (inputElement ''text'' [] True) []) \<and>
   (\<exists>b s' n'. validateField example_page 3 = Some (b, s') \<and>
      (if b then clearFieldError example_page 3 = Some s'
       else (\<exists>m. showFieldError example_page 3 m = Some s')) \<and>
      marked s' 3 = (\<not> b) \<and> getNode 3 (root s') = Some n' \<and>
      el n' = (inputElement ''text'' [] True)\<lparr>el_class := el_class (el n')\<rparr>)"
proof -
  have h1: "wf_world example_page" by code_simp
  have h2: "attached example_page 3" by code_simp
  have h3: "getNode 3 (root example_page) = Some (Node 3 (inputElement ''text'' [] True) [])"
    by code_simp
  from validateField_reflects[OF h1 h2 h3] h1 h2 h3 show ?thesis by simp
qed

text \<open>
  C6 as stated fails: the form of \<open>server_token_page\<close> already holds a field named
  \<open>csrf_token\<close>, with a value of the server's. Processing leaves the page as it is, so the
  value of the token field is not the session token.
\<close>

theorem csrf_token_counterexample:
  "enhanceForm server_token_page 1 = Some server_token_page \<and>
   map el_value (tokenFields server_token_page 1) = [''server-issued''] \<and>
   csrfToken server_token_page = ''csrf_abc_1''"
  by code_simp

text \<open>
  C6, amended. Processing a form that holds no element named \<open>csrf_token\<close> leaves exactly
  one in it, a hidden input whose value is the session token. Processing a form that holds
  such an element changes nothing, whatever that element is. So processing a form a second
  time changes nothing.
\<close>

theorem enhanceForm_token:
  assumes "wf_world s" and "getNode form (root s) = Some f"
  shows "\<exists>s'. enhanceForm s form = Some s' \<and> csrfToken s' = csrfToken s \<and>
           (if tokenFields s form = [] then tokenFields s' form = [tokenElement (csrfToken s)]
            else s' = s) \<and>
           enhanceForm s' form = Some s'"
proof (cases "querySelector sel_csrf_token f")
  case (Some x)
  then have "enhanceForm s form = Some s" by (simp add: enhanceForm_def assms(2))
  moreover have "tokenFields s form \<noteq> []"
    using querySelector_Some[OF Some] by (auto simp: tokenFields_def assms(2))
  ultimately show ?thesis by simp
next
  case None
  let ?c = "Node (next_id s) (tokenElement (csrfToken s)) []"
  let ?s' = "s\<lparr>root := appendChild form ?c (root s), next_id := Suc (next_id s)\<rparr>"
  let ?f' = "Node form (el f) (kids f @ [?c])"
  from assms(1) have d: "distinct (ids (root s))" and fr: "next_id s \<notin> set (ids (root s))"
    by (auto simp: wf_world_def)
  have e: "enhanceForm s form = Some ?s'"
    using None by (simp add: enhanceForm_def assms(2) tokenElement_def Let_def)
  have q: "querySelectorAll sel_csrf_token f = []" using None by (rule querySelector_None)
  then have t0: "tokenFields s form = []" by (simp add: tokenFields_def assms(2))
  have g': "getNode form (appendChild form ?c (root s)) = Some ?f'"
    by (rule getNode_appendChild_target[OF d assms(2) fr])
  have fi: "nid f = form" using getNode_D[OF assms(2)] by simp
  have "Node form (el f) (kids f) = f" using fi by (cases f) simp
  then have q': "querySelectorAll sel_csrf_token ?f' = [?c]"
    using querySelectorAll_append_leaf[of sel_csrf_token form "el f" "kids f" "next_id s"
        "tokenElement (csrfToken s)"] q
    by (simp add: sel_csrf_token_def tokenElement_def)
  then have t1: "tokenFields ?s' form = [tokenElement (csrfToken s)]"
    by (simp add: tokenFields_def g')
  have "querySelector sel_csrf_token ?f' = Some ?c" by (simp add: querySelector_def q')
  then have "enhanceForm ?s' form = Some ?s'"
    by (simp add: enhanceForm_def g')
  with e t0 t1 show ?thesis by simp
qed

theorem enhanceForm_token_witness:
  "wf_world example_page \<and> getNode 1 (root example_page) = Some (hd (kids (root example_page))) \<and>
   tokenFields example_page 1 = [] \<and>
   (\<exists>s'. enhanceForm example_page 1 = Some s' \<and>
      tokenFields s' 1 = [tokenElement ''csrf_abc_1''] \<and> enhanceForm s' 1 = Some s')"
proof -
  have h1: "wf_world example_page" by code_simp
  have h2: "getNode 1 (root example_page) = Some (hd (kids (root example_page)))" by code_simp
  have h3: "tokenFields example_page 1 = []" by code_simp
  have h4: "csrfToken example_page = ''csrf_abc_1''" by code_simp
  from enhanceForm_token[OF h1 h2] h1 h2 h3 h4 show ?thesis by auto
qed

text \<open>
  C7 fails on the code. Showing an error is to replace the annotation of the field, so that
  two calls in a row leave exactly one, with the second message. In \<open>bare_field_page\<close> the
  user leaves the first field, the second and the first again: each field is marked and has
  exactly one annotation, its own. Then \<open>showFieldError\<close> is called twice on the second field.
  Each call removes the first annotation below the parent of the field, and that parent is
  the form: the first call removes the annotation of the other field and the second the old
  annotation of the field itself. The field is left with two annotations, the first and the
  second message, and the other field with none. Leaving the second field once more instead
  stacks its message in the same way.
\<close>

theorem showFieldError_stacks_example:
  "map_option (\<lambda>s. (ownAnnotations s 3, ownAnnotations s 4)) (blurs [3, 4, 3] bare_field_page)
     = Some ([''This field is required''], [''This field is required'']) \<and>
   map_option (\<lambda>s. ownAnnotations s 4)
     (Option.bind (blurs [3, 4, 3] bare_field_page) (\<lambda>s. showTwice s 4 ''first'' ''second''))
     = Some [''first'', ''second''] \<and>
   map_option (\<lambda>s. annotations s 4)
     (Option.bind (blurs [3, 4, 3] bare_field_page) (\<lambda>s. showTwice s 4 ''first'' ''second''))
     = Some [''first'', ''second''] \<and>
   map_option (\<lambda>s. (ownAnnotations s 3, marked s 3))
     (Option.bind (blurs [3, 4, 3] bare_field_page) (\<lambda>s. showTwice s 4 ''first'' ''second''))
     = Some ([], True) \<and>
   map_option (\<lambda>s. (ownAnnotations s 3, ownAnnotations s 4)) (blurs [3, 4, 3, 4] bare_field_page)
     = Some ([], [''This field is required'', ''This field is required''])"
  by code_simp

text \<open>
  C8. The identities of the document are unique and below the counter, and every pending
  callback holds a notification the source has created: an element with an identity below
  the counter, which is not \<open>body\<close>. When
  \<open>body\<close> or the document element is itself of class \<open>security-message\<close>,
  \<open>showSecurityMessage\<close> ends in a \<open>TypeError\<close>. Otherwise it returns, exactly one notification
  is displayed, the new one, and its removal is scheduled 5000 ms later. As time passes with
  no other event at most one notification is displayed: the new one until 5000 ms have
  passed, and none from then on. After a second call, however long after the first, the
  second notification is the only one displayed; it stays until 5000 ms after the second
  call, whatever callbacks of earlier notifications run meanwhile, and none is displayed from
  then on. A callback whose notification is no longer in the document changes nothing.
\<close>

theorem notification_lifecycle:
  assumes "wf_world s"
    and "\<forall>x \<in> set (timers s). snd x < next_id s \<and> snd x \<noteq> nid (root s)"
  shows "(\<not> plain_root s \<longrightarrow> showSecurityMessage s a ta = None) \<and>
         (plain_root s \<longrightarrow>
            (\<exists>s1. showSecurityMessage s a ta = Some s1 \<and> notifications s1 = [a] \<and>
               clock s1 = clock s \<and> timers s1 = timers s @ [(clock s + 5000, next_id s)] \<and>
               (\<forall>u. length (notifications (advance s1 u)) \<le> 1) \<and>
               (\<forall>u. u < clock s + 5000 \<longrightarrow> notifications (advance s1 u) = [a]) \<and>
               (\<forall>u. clock s + 5000 \<le> u \<longrightarrow> notifications (advance s1 u) = []) \<and>
               (\<forall>v. \<exists>s2. showSecurityMessage (advance s1 v) b tb = Some s2 \<and>
                      notifications s2 = [b] \<and> clock s2 = max (clock s) v \<and>
                      (\<forall>w. w < clock s2 + 5000 \<longrightarrow> notifications (advance s2 w) = [b]) \<and>
                      (\<forall>w. clock s2 + 5000 \<le> w \<longrightarrow> notifications (advance s2 w) = [])))) \<and>
         (i \<notin> set (ids t) \<longrightarrow> timerCallback i t = t)"
proof (intro conjI impI)
  assume "\<not> plain_root s"
  then show "showSecurityMessage s a ta = None" by (simp add: showSecurityMessage_conv)
next
  assume "i \<notin> set (ids t)"
  then show "timerCallback i t = t" by (rule absent_timerCallback)
next
  assume p: "plain_root s"
  let ?s1 = "messageShown s a ta"
  from assms(2) have old: "\<forall>x \<in> set (timers s). snd x < next_id s" by simp
  have c1: "showSecurityMessage s a ta = Some ?s1" using p by (simp add: showSecurityMessage_conv)
  have n1: "notifications ?s1 = [a]" by (rule messageShown_notifications)
  have k1: "clock ?s1 = clock s" by (rule messageShown_clock)
  have t1: "timers ?s1 = timers s @ [(clock s + 5000, next_id s)]" by (rule messageShown_timers)
  have i1: "next_id ?s1 = Suc (next_id s)" by (simp add: messageShown_def Let_def)
  have l1: "\<forall>u. length (notifications (advance ?s1 u)) \<le> 1"
  proof
    fix u
    from list_emb_length[OF advance_notifications[of ?s1 u]]
    show "length (notifications (advance ?s1 u)) \<le> 1" by (simp add: n1)
  qed
  have a1: "\<forall>u. u < clock s + 5000 \<longrightarrow> notifications (advance ?s1 u) = [a]"
    using advance_pending[OF old] by blast
  have e1: "\<forall>u. clock s + 5000 \<le> u \<longrightarrow> notifications (advance ?s1 u) = []"
    using advance_due by blast
  have two: "\<forall>v. \<exists>s2. showSecurityMessage (advance ?s1 v) b tb = Some s2 \<and>
                      notifications s2 = [b] \<and> clock s2 = max (clock s) v \<and>
                      (\<forall>w. w < clock s2 + 5000 \<longrightarrow> notifications (advance s2 w) = [b]) \<and>
                      (\<forall>w. clock s2 + 5000 \<le> w \<longrightarrow> notifications (advance s2 w) = [])"
  proof
    fix v
    let ?s' = "advance ?s1 v"
    let ?s2 = "messageShown ?s' b tb"
    have p': "plain_root ?s'" using p by (simp add: advance_plain messageShown_plain)
    have c2: "showSecurityMessage ?s' b tb = Some ?s2" using p' by (simp add: showSecurityMessage_conv)
    have k2: "clock ?s2 = max (clock s) v" by (simp add: messageShown_clock advance_fields(2) k1)
    have old': "\<forall>x \<in> set (timers ?s'). snd x < next_id ?s'"
    proof
      fix x assume "x \<in> set (timers ?s')"
      with advance_fields(3)[of ?s1 v] have "x \<in> set (timers ?s1)" by blast
      with t1 old have "snd x < Suc (next_id s)" by (auto simp: less_Suc_eq)
      then show "snd x < next_id ?s'" by (simp add: advance_fields(1) i1)
    qed
    have kk: "clock ?s2 = clock ?s'" by (rule messageShown_clock)
    have a2: "\<forall>w. w < clock ?s2 + 5000 \<longrightarrow> notifications (advance ?s2 w) = [b]"
      using advance_pending[OF old'] unfolding kk by blast
    have e2: "\<forall>w. clock ?s2 + 5000 \<le> w \<longrightarrow> notifications (advance ?s2 w) = []"
      using advance_due unfolding kk by blast
    from c2 messageShown_notifications[of ?s' b tb] k2 a2 e2
    show "\<exists>s2. showSecurityMessage ?s' b tb = Some s2 \<and>
                      notifications s2 = [b] \<and> clock s2 = max (clock s) v \<and>
                      (\<forall>w. w < clock s2 + 5000 \<longrightarrow> notifications (advance s2 w) = [b]) \<and>
                      (\<forall>w. clock s2 + 5000 \<le> w \<longrightarrow> notifications (advance s2 w) = [])"
      by blast
  qed
  from c1 n1 k1 t1 l1 a1 e1 two
  show "\<exists>s1. showSecurityMessage s a ta = Some s1 \<and> notifications s1 = [a] \<and>
               clock s1 = clock s \<and> timers s1 = timers s @ [(clock s + 5000, next_id s)] \<and>
               (\<forall>u. length (notifications (advance s1 u)) \<le> 1) \<and>
               (\<forall>u. u < clock s + 5000 \<longrightarrow> notifications (advance s1 u) = [a]) \<and>
               (\<forall>u. clock s + 5000 \<le> u \<longrightarrow> notifications (advance s1 u) = []) \<and>
               (\<forall>v. \<exists>s2. showSecurityMessage (advance s1 v) b tb = Some s2 \<and>
                      notifications s2 = [b] \<and> clock s2 = max (clock s) v \<and>
                      (\<forall>w. w < clock s2 + 5000 \<longrightarrow> notifications (advance s2 w) = [b]) \<and>
                      (\<forall>w. clock s2 + 5000 \<le> w \<longrightarrow> notifications (advance s2 w) = []))"
    by blast
qed

theorem notification_lifecycle_witness:
  "wf_world example_page \<and> timers example_page = [] \<and> clock example_page = 0 \<and>
   plain_root example_page \<and>
   9 \<notin> set (ids (root example_page)) \<and> timerCallback 9 (root example_page) = root example_page \<and>
   (\<exists>s1 s2. showSecurityMessage example_page ''one'' Error = Some s1 \<and>
      notifications s1 = [''one''] \<and> timers s1 = [(5000, 6)] \<and>
      notifications (advance s1 100) = [''one''] \<and> notifications (advance s1 5000) = [] \<and>
      showSecurityMessage (advance s1 100) ''two'' Success = Some s2 \<and>
      notifications s2 = [''two''] \<and> clock s2 = 100 \<and>
      notifications (advance s2 5099) = [''two''] \<and> notifications (advance s2 5100) = [])"
proof -
  have h1: "wf_world example_page" by code_simp
  have h2: "timers example_page = []" by code_simp
  have h3: "clock example_page = 0" by code_simp
  have h4: "plain_root example_page" by code_simp
  have h5: "9 \<notin> set (ids (root example_page))" by code_simp
  have h6: "next_id example_page = 6" by code_simp
  have tm: "\<forall>x \<in> set (timers example_page). snd x < next_id example_page \<and> snd x \<noteq> nid (root example_page)"
    by (simp add: h2)
  note th = notification_lifecycle[OF h1 tm, of "''one''" Error "''two''" Success 9 "root example_page"]
  from th h5 have cb: "timerCallback 9 (root example_page) = root example_page" by blast
  from th h4 obtain s1 where s1: "showSecurityMessage example_page ''one'' Error = Some s1"
    "notifications s1 = [''one'']"
    "timers s1 = timers example_page @ [(clock example_page + 5000, next_id example_page)]"
    "\<forall>u. u < clock example_page + 5000 \<longrightarrow> notifications (advance s1 u) = [''one'']"
    "\<forall>u. clock example_page + 5000 \<le> u \<longrightarrow> notifications (advance s1 u) = []"
    "\<forall>v. \<exists>s2. showSecurityMessage (advance s1 v) ''two'' Success = Some s2 \<and>
            notifications s2 = [''two''] \<and> clock s2 = max (clock example_page) v \<and>
            (\<forall>w. w < clock s2 + 5000 \<longrightarrow> notifications (advance s2 w) = [''two'']) \<and>
            (\<forall>w. clock s2 + 5000 \<le> w \<longrightarrow> notifications (advance s2 w) = [])"
    by blast
  from s1(6) obtain s2 where s2: "showSecurityMessage (advance s1 100) ''two'' Success = Some s2"
    "notifications s2 = [''two'']" "clock s2 = max (clock example_page) 100"
    "\<forall>w. w < clock s2 + 5000 \<longrightarrow> notifications (advance s2 w) = [''two'']"
    "\<forall>w. clock s2 + 5000 \<le> w \<longrightarrow> notifications (advance s2 w) = []"
    by blast
  have k: "clock s2 = 100" using s2(3) by (simp add: h3)
  have t: "timers s1 = [(5000, 6)]" using s1(3) by (simp add: h2 h3 h6)
  have p1: "notifications (advance s1 100) = [''one'']" using s1(4) by (simp add: h3)
  have p2: "notifications (advance s1 5000) = []" using s1(5) by (simp add: h3)
  have q1: "notifications (advance s2 5099) = [''two'']" using s2(4) by (simp add: k)
  have q2: "notifications (advance s2 5100) = []" using s2(5) by (simp add: k)
  from s1(1,2) t p1 p2 s2(1,2) k q1 q2
  have "\<exists>s1 s2. showSecurityMessage example_page ''one'' Error = Some s1 \<and>
      notifications s1 = [''one''] \<and> timers s1 = [(5000, 6)] \<and>
      notifications (advance s1 100) = [''one''] \<and> notifications (advance s1 5000) = [] \<and>
      showSecurityMessage (advance s1 100) ''two'' Success = Some s2 \<and>
      notifications s2 = [''two''] \<and> clock s2 = 100 \<and>
      notifications (advance s2 5099) = [''two''] \<and> notifications (advance s2 5100) = []"
    by blast
  with h1 h2 h3 h4 h5 cb show ?thesis by blast
qed

text \<open>
  C9. When the selected file has a type outside the allow-list or is too large,
  \<open>validateFileUpload\<close> returns false and leaves the input with the empty value and no
  selected file. Whatever it returns, every file object in the document afterwards is a file
  object of the document before: none is changed or created.
\<close>

theorem validateFileUpload_rejection_resets:
  assumes "wf_world s" and "attached s input" and "getNode input (root s) = Some n"
    and "el_tag (el n) = ''input''" and "el_type (el n) = ''file''"
    and "el_files (el n) = fl # rest"
    and "file_type fl \<notin> set allowedTypes \<or> maxSize < file_size fl"
  shows "(\<exists>s' n'. validateFileUpload s input = Some (False, s') \<and>
            getNode input (root s') = Some n' \<and> el_value (el n') = [] \<and> el_files (el n') = []) \<and>
         (\<forall>b s'. validateFileUpload s input = Some (b, s') \<longrightarrow>
            set (allFiles (root s')) \<subseteq> set (allFiles (root s)))"
proof
  let ?m = "if file_type fl \<notin> set allowedTypes
            then ''Invalid file type. Allowed: JPG, PNG, PDF, DOC (max 5MB)''
            else ''File too large. Maximum size is 5MB''"
  from validateFileUpload_rejects[OF assms(1,2,3,5), of ?m]
  obtain s1 n' where s1: "showFieldError s input ?m = Some s1"
    and g: "getNode input (root (s1\<lparr>root := updateElement input resetValue (root s1)\<rparr>)) = Some n'"
    and v: "el_value (el n') = []" "el_files (el n') = []" by blast
  have "validateFileUpload s input = Some (False, s1\<lparr>root := updateElement input resetValue (root s1)\<rparr>)"
    using assms(7) s1 by (auto simp: validateFileUpload_def assms(3,4,5,6) maxSizeReadable_def)
  with g v show "\<exists>s' n'. validateFileUpload s input = Some (False, s') \<and>
            getNode input (root s') = Some n' \<and> el_value (el n') = [] \<and> el_files (el n') = []"
    by blast
  show "\<forall>b s'. validateFileUpload s input = Some (b, s') \<longrightarrow>
            set (allFiles (root s')) \<subseteq> set (allFiles (root s))"
    using validateFileUpload_files by blast
qed

theorem validateFileUpload_rejection_resets_witness:
  "wf_world (file_page [png_6MiB]) \<and> attached (file_page [png_6MiB]) 3 \<and>
   getNode 3 (root (file_page [png_6MiB])) = Some (Node 3 (file_input [png_6MiB]) []) \<and>
   el_tag (file_input [png_6MiB]) = ''input'' \<and> el_type (file_input [png_6MiB]) = ''file'' \<and>
   el_files (file_input [png_6MiB]) = [png_6MiB] \<and> maxSize < file_size png_6MiB \<and>
   (\<exists>s' n'. validateFileUpload (file_page [png_6MiB]) 3 = Some (False, s') \<and>
      getNode 3 (root s') = Some n' \<and> el_value (el n') = [] \<and> el_files (el n') = [] \<and>
      set (allFiles (root s')) \<subseteq> set (allFiles (root (file_page [png_6MiB]))))"
proof -
  have h1: "wf_world (file_page [png_6MiB])" by (rule file_page_wf)
  have h2: "attached (file_page [png_6MiB]) 3" by (rule file_page_attached)
  have h3: "getNode 3 (root (file_page [png_6MiB])) = Some (Node 3 (file_input [png_6MiB]) [])"
    by (rule file_page_node)
  have h4: "el_tag (el (Node 3 (file_input [png_6MiB]) [])) = ''input''" by (simp add: file_input_props)
  have h5: "el_type (el (Node 3 (file_input [png_6MiB]) [])) = ''file''" by (simp add: file_input_props)
  have h6: "el_files (el (Node 3 (file_input [png_6MiB]) [])) = png_6MiB # []"
    by (simp add: file_input_props)
  have h7: "maxSize < file_size png_6MiB" by (simp add: png_6MiB_def maxSize_def)
  then have h8: "file_type png_6MiB \<notin> set allowedTypes \<or> maxSize < file_size png_6MiB" by simp
  from validateFileUpload_rejection_resets[OF h1 h2 h3 h4 h5 h6 h8]
  have "\<exists>s' n'. validateFileUpload (file_page [png_6MiB]) 3 = Some (False, s') \<and>
      getNode 3 (root s') = Some n' \<and> el_value (el n') = [] \<and> el_files (el n') = [] \<and>
      set (allFiles (root s')) \<subseteq> set (allFiles (root (file_page [png_6MiB])))"
    by blast
  with h1 h2 h3 h7 show ?thesis by (simp add: file_input_props)
qed

text \<open>
  C10. With no file selected \<open>validateFileUpload\<close> returns true and the state is the one it
  started from. With a valid file selected it runs \<open>clearFieldError\<close>, which removes the first
  annotation of the input's parent, and emits the success notification (\<open>body\<close> and the
  document element being no notification themselves).
\<close>

theorem validateFileUpload_no_file:
  assumes "getNode input (root s) = Some n" and "el_tag (el n) = ''input''"
    and "el_type (el n) = ''file''"
  shows "(el_files (el n) = [] \<longrightarrow> validateFileUpload s input = Some (True, s)) \<and>
         (wf_world s \<and> attached s input \<and> plain_root s \<and>
          (\<exists>fl rest. el_files (el n) = fl # rest \<and> file_type fl \<in> set allowedTypes \<and>
                     file_size fl \<le> maxSize) \<longrightarrow>
            (\<exists>s1 s2. clearFieldError s input = Some s1 \<and>
                  subseq (annotations s1 input) (drop 1 (annotations s input)) \<and>
                  showSecurityMessage s1 ''File looks good!'' Success = Some s2 \<and>
                  validateFileUpload s input = Some (True, s2) \<and>
                  notifications s2 = [''File looks good!'']))"
proof (intro conjI impI)
  assume "el_files (el n) = []"
  then show "validateFileUpload s input = Some (True, s)"
    by (simp add: validateFileUpload_def assms)
next
  assume a: "wf_world s \<and> attached s input \<and> plain_root s \<and>
          (\<exists>fl rest. el_files (el n) = fl # rest \<and> file_type fl \<in> set allowedTypes \<and>
                     file_size fl \<le> maxSize)"
  then obtain fl rest where fs: "el_files (el n) = fl # rest" "file_type fl \<in> set allowedTypes"
    "file_size fl \<le> maxSize" by blast
  from a clearFieldError_effect[of s input] obtain s1 where s1: "clearFieldError s input = Some s1"
    "subseq (annotations s1 input) (drop 1 (annotations s input))" by blast
  let ?s2 = "messageShown s1 ''File looks good!'' Success"
  have p1: "plain_root s1" using clearFieldError_plain[OF s1(1)] a by simp
  then have sh: "showSecurityMessage s1 ''File looks good!'' Success = Some ?s2"
    by (simp add: showSecurityMessage_conv)
  have "validateFileUpload s input = Some (True, ?s2)"
    using fs s1(1) sh by (simp add: validateFileUpload_def assms)
  with s1 sh messageShown_notifications[of s1 "''File looks good!''" Success]
  show "\<exists>s1 s2. clearFieldError s input = Some s1 \<and>
                  subseq (annotations s1 input) (drop 1 (annotations s input)) \<and>
                  showSecurityMessage s1 ''File looks good!'' Success = Some s2 \<and>
                  validateFileUpload s input = Some (True, s2) \<and>
                  notifications s2 = [''File looks good!'']"
    by blast
qed

theorem validateFileUpload_no_file_witness:
  "getNode 3 (root (file_page [])) = Some (Node 3 (file_input []) []) \<and>
   el_tag (file_input []) = ''input'' \<and> el_type (file_input []) = ''file'' \<and>
   el_files (file_input []) = [] \<and>
   validateFileUpload (file_page []) 3 = Some (True, file_page []) \<and>
   annotations (file_page []) 3 = [''File too large. Maximum size is 5MB''] \<and>
   notifications (file_page []) = [] \<and>
   wf_world (file_page [png_4MiB]) \<and> attached (file_page [png_4MiB]) 3 \<and>
   plain_root (file_page [png_4MiB]) \<and>
   file_type png_4MiB \<in> set allowedTypes \<and> file_size png_4MiB \<le> maxSize \<and>
   (\<exists>s1 s2. clearFieldError (file_page [png_4MiB]) 3 = Some s1 \<and> annotations s1 3 = [] \<and>
      showSecurityMessage s1 ''File looks good!'' Success = Some s2 \<and>
      validateFileUpload (file_page [png_4MiB]) 3 = Some (True, s2) \<and>
      notifications s2 = [''File looks good!''])"
proof -
  have g: "getNode 3 (root (file_page fs)) = Some (Node 3 (file_input fs) [])" for fs
    by (rule file_page_node)
  have t: "el_tag (el (Node 3 (file_input fs) [])) = ''input''"
    "el_type (el (Node 3 (file_input fs) [])) = ''file''" for fs
    by (simp_all add: file_input_props)
  have e: "el_files (el (Node 3 (file_input [])  [])) = []" by (simp add: file_input_props)
  from validateFileUpload_no_file[OF g t, of "[]"] e
  have a: "validateFileUpload (file_page []) 3 = Some (True, file_page [])" by blast
  have n: "notifications (file_page []) = []" by code_simp
  have p: "file_type png_4MiB \<in> set allowedTypes" "file_size png_4MiB \<le> maxSize"
    by (simp_all add: png_4MiB_def allowedTypes_def maxSize_def)
  have "\<exists>fl rest. el_files (el (Node 3 (file_input [png_4MiB]) [])) = fl # rest \<and>
          file_type fl \<in> set allowedTypes \<and> file_size fl \<le> maxSize"
    using p by (simp add: file_input_props)
  with validateFileUpload_no_file[OF g t, of "[png_4MiB]"] file_page_wf file_page_attached file_page_plain
  obtain s1 s2 where "clearFieldError (file_page [png_4MiB]) 3 = Some s1"
    "subseq (annotations s1 3) (drop 1 (annotations (file_page [png_4MiB]) 3))"
    "showSecurityMessage s1 ''File looks good!'' Success = Some s2"
    "validateFileUpload (file_page [png_4MiB]) 3 = Some (True, s2)"
    "notifications s2 = [''File looks good!'']"
    by blast
  then have b: "\<exists>s1 s2. clearFieldError (file_page [png_4MiB]) 3 = Some s1 \<and> annotations s1 3 = [] \<and>
      showSecurityMessage s1 ''File looks good!'' Success = Some s2 \<and>
      validateFileUpload (file_page [png_4MiB]) 3 = Some (True, s2) \<and>
      notifications s2 = [''File looks good!'']"
    by (auto simp: file_page_annotations)
  from a b n p show ?thesis
    by (simp add: file_page_node file_input_props file_page_annotations file_page_wf file_page_attached
        file_page_plain)
qed

end
